theory Spec2Isabelle
  imports Complex_Main "HOL-Library.Word" "HOL-Library.List_Lexorder" "HOL-Library.Multiset"
begin

section \<open>Store keys\<close>

text \<open>
  Modelled from the spec: the declaration of \<open>store_key_t\<close> is outside the sources at
  hand. A store key is a byte string: a list of 8-bit words, compared byte-wise and
  unsigned, a proper prefix being smaller (the lexicographic order on lists).
  The maximal key length (\<open>MAX_KEY_SIZE\<close>) is a parameter \<open>mks\<close> of every function
  that builds \<open>store_key_t::max()\<close>, the maximal key of \<open>mks\<close> bytes \<open>0xFF\<close>;
  \<open>store_key_t::min()\<close> and the default-constructed key are the empty key.
\<close>

type_synonym store_key_t = "8 word list"

definition valid_key :: "nat \<Rightarrow> store_key_t \<Rightarrow> bool" where
  "valid_key mks k = (length k \<le> mks)"

definition store_key_max :: "nat \<Rightarrow> store_key_t" where
  "store_key_max mks = replicate mks 255"

definition store_key_min :: store_key_t where
  "store_key_min = []"

text \<open>
  Modelled from the spec: \<open>sorting_t\<close> and \<open>reversed\<close> are declared outside the sources
  at hand; the reversed sort order is the descending one.
\<close>

datatype sorting_t = UNORDERED | ASCENDING | DESCENDING

definition reversed :: "sorting_t \<Rightarrow> bool" where
  "reversed sorting = (sorting = DESCENDING)"

text \<open>\<open>key_max\<close>: the sentinel a range read ends at when no shard was truncated.\<close>

definition key_max :: "nat \<Rightarrow> sorting_t \<Rightarrow> store_key_t" where
  "key_max mks sorting = (if \<not> reversed sorting then store_key_max mks else store_key_min)"

text \<open>
  Modelled from the spec: \<open>key_le_t\<close> is declared outside the sources at hand; it is the
  key comparator of the sort order, \<open>\<le>\<close> for an unreversed sorting and \<open>\<ge>\<close> for a
  reversed one.
\<close>

definition is_le :: "sorting_t \<Rightarrow> store_key_t \<Rightarrow> store_key_t \<Rightarrow> bool" where
  "is_le sorting key1 key2 =
     ((\<not> reversed sorting \<and> key1 \<le> key2) \<or> (reversed sorting \<and> key2 \<le> key1))"

section \<open>Key ranges and regions\<close>

text \<open>
  Modelled from the spec: a key range has a bound on each side, each open, closed or
  absent (\<open>none\<close>); a region is the product of a half-open hash interval and a key
  range. The constructor \<open>key_range_t(lt, l, rt, r)\<close> is kept as the record of its four
  arguments.
\<close>

datatype bound_t = bound_open | bound_closed | bound_none

record key_range_t =
  left_bound :: bound_t
  left_key :: store_key_t
  right_bound :: bound_t
  right_key :: store_key_t

definition contains_key :: "key_range_t \<Rightarrow> store_key_t \<Rightarrow> bool" where
  "contains_key kr k =
     ((case left_bound kr of
         bound_none \<Rightarrow> True
       | bound_closed \<Rightarrow> left_key kr \<le> k
       | bound_open \<Rightarrow> left_key kr < k)
      \<and>
      (case right_bound kr of
         bound_none \<Rightarrow> True
       | bound_closed \<Rightarrow> k \<le> right_key kr
       | bound_open \<Rightarrow> k < right_key kr))"

record region_t =
  beg :: "64 word"
  hend :: "64 word"
  inner_range :: key_range_t

text \<open>
  Modelled from the spec: \<open>region_contains_key\<close> is declared outside the sources at
  hand. A region contains a key when the key's hash lies in the hash interval and the
  key lies in the key range (the test \<open>range_key_tester_t::key_should_be_erased\<close>
  writes out). The hash function \<open>hash_region_hasher\<close> is a parameter \<open>hasher\<close>.
\<close>

definition region_contains_key ::
  "(store_key_t \<Rightarrow> 64 word) \<Rightarrow> region_t \<Rightarrow> store_key_t \<Rightarrow> bool" where
  "region_contains_key hasher region k =
     (let h = hasher k in beg region \<le> h \<and> h < hend region \<and> contains_key (inner_range region) k)"

definition monokey_region :: "(store_key_t \<Rightarrow> 64 word) \<Rightarrow> store_key_t \<Rightarrow> region_t" where
  "monokey_region hasher k =
     (let h = hasher k in
      \<lparr>beg = h, hend = h + 1,
       inner_range = \<lparr>left_bound = bound_closed, left_key = k,
                      right_bound = bound_closed, right_key = k\<rparr>\<rparr>)"

section \<open>Secondary-index key ranges\<close>

text \<open>
  \<open>sindex_key_range\<close>: the loop erases the trailing bytes \<open>0xFF\<close> of the end key; an
  empty remainder gives the maximal key, otherwise the last byte is incremented in
  place (it is not \<open>0xFF\<close>, so the increment does not wrap).
\<close>

function strip_trailing_ff :: "store_key_t \<Rightarrow> store_key_t" where
  "strip_trailing_ff end_key_str =
     (if length end_key_str > 0 \<and> end_key_str ! (length end_key_str - 1) = 255
      then strip_trailing_ff (take (length end_key_str - 1) end_key_str)
      else end_key_str)"
  by pat_completeness auto
termination
  by (relation "measure length") auto

definition sindex_end_key :: "nat \<Rightarrow> store_key_t \<Rightarrow> store_key_t" where
  "sindex_end_key mks end_k =
     (let end_key_str = strip_trailing_ff end_k in
      if length end_key_str = 0 then store_key_max mks
      else end_key_str[length end_key_str - 1 :=
                         end_key_str ! (length end_key_str - 1) + 1])"

definition sindex_key_range :: "nat \<Rightarrow> store_key_t \<Rightarrow> store_key_t \<Rightarrow> key_range_t" where
  "sindex_key_range mks start end_k =
     \<lparr>left_bound = bound_closed, left_key = start,
      right_bound = bound_open, right_key = sindex_end_key mks end_k\<rparr>"

section \<open>Failures\<close>

text \<open>A failed \<open>guarantee\<close> aborts the process; it is the only failure of the code below.\<close>

datatype crash = Guarantee_failed

section \<open>Operations\<close>

text \<open>
  The structs of the operations are declared outside the sources at hand. Each variant
  carries the fields the functions below read (key, region, sorting, limits) and keeps
  its remaining fields, which the code only copies, in one opaque component.
\<close>

datatype profile_bool_t = PROFILE | DONT_PROFILE

record ('bs, 'tm, 'x) rget_read_t =
  rg_region :: region_t
  rg_batchspec :: 'bs
  rg_sorting :: sorting_t
  rg_terminal :: "'tm option"
  rg_rest :: 'x

record 'x nearest_geo_read_t =
  ngr_region :: region_t
  ngr_max_results :: nat
  ngr_rest :: 'x

record distribution_read_t =
  max_depth :: nat
  result_limit :: nat
  dr_region :: region_t

datatype ('bs, 'tm, 'x) read_variant_t =
    Point_read store_key_t
  | Rget_read "('bs, 'tm, 'x) rget_read_t"
  | Intersecting_geo_read region_t 'x
  | Nearest_geo_read "'x nearest_geo_read_t"
  | Distribution_read distribution_read_t
  | Sindex_list
  | Changefeed_subscribe region_t 'x
  | Changefeed_stamp region_t 'x
  | Changefeed_point_stamp store_key_t 'x
  | Sindex_status region_t 'x

record ('bs, 'tm, 'x) read_t =
  read :: "('bs, 'tm, 'x) read_variant_t"
  profile :: profile_bool_t

datatype ('row, 'x) write_variant_t =
    Batched_replace "store_key_t list" 'x
  | Batched_insert "'row list" string 'x
  | Point_write store_key_t 'x
  | Point_delete store_key_t
  | Sindex_create region_t 'x
  | Sindex_drop region_t 'x
  | Sindex_rename region_t 'x
  | Sync region_t

record ('row, 'x, 'dur, 'lim) write_t =
  write_op :: "('row, 'x) write_variant_t"
  durability_requirement :: 'dur
  w_profile :: profile_bool_t
  limits :: 'lim

text \<open>
  What the sharder calls and the sources at hand do not define: the hash function, the
  intersection and the emptiness test of regions, the scaling of a batch spec by
  \<open>CPU_SHARDING_FACTOR\<close>, and the primary key a row prints under a key field.
\<close>

record ('bs, 'row) shard_env =
  hash_region_hasher :: "store_key_t \<Rightarrow> 64 word"
  region_intersection :: "region_t \<Rightarrow> region_t \<Rightarrow> region_t"
  region_is_empty :: "region_t \<Rightarrow> bool"
  batchspec_scale_down :: "'bs \<Rightarrow> 'bs"
  print_primary :: "string \<Rightarrow> 'row \<Rightarrow> store_key_t"

definition sindex_list_region_key :: store_key_t where
  "sindex_list_region_key = []"

section \<open>Sharding a read\<close>

text \<open>
  The visitor returns its boolean and the value of \<open>*payload_out\<close> after the call;
  \<open>payload\<close> is the value before it (the default-constructed variant in \<open>read_t::shard\<close>).
\<close>

definition keyed_read ::
  "('bs, 'row) shard_env \<Rightarrow> region_t \<Rightarrow> ('bs, 'tm, 'x) read_variant_t
   \<Rightarrow> ('bs, 'tm, 'x) read_variant_t \<Rightarrow> store_key_t
   \<Rightarrow> bool \<times> ('bs, 'tm, 'x) read_variant_t" where
  "keyed_read env region payload arg k =
     (if region_contains_key (hash_region_hasher env) region k then (True, arg)
      else (False, payload))"

definition rangey_read ::
  "('bs, 'row) shard_env \<Rightarrow> region_t \<Rightarrow> ('bs, 'tm, 'x) read_variant_t
   \<Rightarrow> region_t \<Rightarrow> (region_t \<Rightarrow> ('bs, 'tm, 'x) read_variant_t)
   \<Rightarrow> bool \<times> ('bs, 'tm, 'x) read_variant_t" where
  "rangey_read env region payload arg_region with_region =
     (let intersection = region_intersection env region arg_region in
      if \<not> region_is_empty env intersection then (True, with_region intersection)
      else (False, payload))"

fun rdb_r_shard_visitor ::
  "('bs, 'row) shard_env \<Rightarrow> region_t \<Rightarrow> ('bs, 'tm, 'x) read_variant_t
   \<Rightarrow> ('bs, 'tm, 'x) read_variant_t \<Rightarrow> bool \<times> ('bs, 'tm, 'x) read_variant_t" where
  "rdb_r_shard_visitor env region payload (Point_read k) =
     keyed_read env region payload (Point_read k) k"
| "rdb_r_shard_visitor env region payload (Changefeed_subscribe r x) =
     rangey_read env region payload r (\<lambda>i. Changefeed_subscribe i x)"
| "rdb_r_shard_visitor env region payload (Changefeed_stamp r x) =
     rangey_read env region payload r (\<lambda>i. Changefeed_stamp i x)"
| "rdb_r_shard_visitor env region payload (Changefeed_point_stamp k x) =
     keyed_read env region payload (Changefeed_point_stamp k x) k"
| "rdb_r_shard_visitor env region payload (Rget_read rg) =
     (case rangey_read env region payload (rg_region rg)
             (\<lambda>i. Rget_read (rg\<lparr>rg_region := i\<rparr>)) of
        (True, Rget_read rg_out) \<Rightarrow>
          (True, Rget_read (rg_out\<lparr>rg_batchspec :=
                                     batchspec_scale_down env (rg_batchspec rg_out)\<rparr>))
      | other \<Rightarrow> other)"
| "rdb_r_shard_visitor env region payload (Intersecting_geo_read r x) =
     rangey_read env region payload r (\<lambda>i. Intersecting_geo_read i x)"
| "rdb_r_shard_visitor env region payload (Nearest_geo_read gr) =
     rangey_read env region payload (ngr_region gr)
       (\<lambda>i. Nearest_geo_read (gr\<lparr>ngr_region := i\<rparr>))"
| "rdb_r_shard_visitor env region payload (Distribution_read dg) =
     rangey_read env region payload (dr_region dg)
       (\<lambda>i. Distribution_read (dg\<lparr>dr_region := i\<rparr>))"
| "rdb_r_shard_visitor env region payload Sindex_list =
     keyed_read env region payload Sindex_list sindex_list_region_key"
| "rdb_r_shard_visitor env region payload (Sindex_status r x) =
     rangey_read env region payload r (\<lambda>i. Sindex_status i x)"

text \<open>
  \<open>read_t::shard\<close>: \<open>default_payload\<close> is the default-constructed \<open>read_t::variant_t\<close>
  (the variant's declaration is outside the sources at hand). The pair is the returned
  boolean and the value assigned to \<open>*read_out\<close>.
\<close>

definition read_shard ::
  "('bs, 'row) shard_env \<Rightarrow> ('bs, 'tm, 'x) read_variant_t \<Rightarrow> region_t
   \<Rightarrow> ('bs, 'tm, 'x) read_t \<Rightarrow> bool \<times> ('bs, 'tm, 'x) read_t" where
  "read_shard env default_payload region r =
     (let (res, payload) = rdb_r_shard_visitor env region default_payload (read r) in
      (res, \<lparr>read = payload, profile = profile r\<rparr>))"

section \<open>Sharding a write\<close>

definition keyed_write ::
  "('bs, 'row) shard_env \<Rightarrow> region_t \<Rightarrow> ('row, 'x) write_variant_t
   \<Rightarrow> ('row, 'x) write_variant_t \<Rightarrow> store_key_t
   \<Rightarrow> bool \<times> ('row, 'x) write_variant_t" where
  "keyed_write env region payload arg k =
     (if region_contains_key (hash_region_hasher env) region k then (True, arg)
      else (False, payload))"

definition rangey_write ::
  "('bs, 'row) shard_env \<Rightarrow> region_t \<Rightarrow> ('row, 'x) write_variant_t
   \<Rightarrow> region_t \<Rightarrow> (region_t \<Rightarrow> ('row, 'x) write_variant_t)
   \<Rightarrow> bool \<times> ('row, 'x) write_variant_t" where
  "rangey_write env region payload arg_region with_region =
     (let intersection = region_intersection env region arg_region in
      if \<not> region_is_empty env intersection then (True, with_region intersection)
      else (False, payload))"

fun rdb_w_shard_visitor ::
  "('bs, 'row) shard_env \<Rightarrow> region_t \<Rightarrow> ('row, 'x) write_variant_t
   \<Rightarrow> ('row, 'x) write_variant_t \<Rightarrow> bool \<times> ('row, 'x) write_variant_t" where
  "rdb_w_shard_visitor env region payload (Batched_replace keys x) =
     (let shard_keys = filter (region_contains_key (hash_region_hasher env) region) keys in
      if shard_keys \<noteq> [] then (True, Batched_replace shard_keys x) else (False, payload))"
| "rdb_w_shard_visitor env region payload (Batched_insert inserts pkey x) =
     (let shard_inserts =
            filter (\<lambda>row. region_contains_key (hash_region_hasher env) region
                             (print_primary env pkey row)) inserts in
      if shard_inserts \<noteq> [] then (True, Batched_insert shard_inserts pkey x)
      else (False, payload))"
| "rdb_w_shard_visitor env region payload (Point_write k x) =
     keyed_write env region payload (Point_write k x) k"
| "rdb_w_shard_visitor env region payload (Point_delete k) =
     keyed_write env region payload (Point_delete k) k"
| "rdb_w_shard_visitor env region payload (Sindex_create r x) =
     rangey_write env region payload r (\<lambda>i. Sindex_create i x)"
| "rdb_w_shard_visitor env region payload (Sindex_drop r x) =
     rangey_write env region payload r (\<lambda>i. Sindex_drop i x)"
| "rdb_w_shard_visitor env region payload (Sindex_rename r x) =
     rangey_write env region payload r (\<lambda>i. Sindex_rename i x)"
| "rdb_w_shard_visitor env region payload (Sync r) =
     rangey_write env region payload r (\<lambda>i. Sync i)"

definition write_shard ::
  "('bs, 'row) shard_env \<Rightarrow> ('row, 'x) write_variant_t \<Rightarrow> region_t
   \<Rightarrow> ('row, 'x, 'dur, 'lim) write_t \<Rightarrow> bool \<times> ('row, 'x, 'dur, 'lim) write_t" where
  "write_shard env default_payload region w =
     (let (res, payload) = rdb_w_shard_visitor env region default_payload (write_op w) in
      (res, \<lparr>write_op = payload, durability_requirement = durability_requirement w,
             w_profile = w_profile w, limits = limits w\<rparr>))"

section \<open>Regions of writes\<close>

text \<open>
  Modelled from the spec: the default-constructed region (its constructor is outside
  the sources at hand) is empty in both components, the hash interval from 0 to 0 and
  the key range from the empty key to the empty key, open on the right.
\<close>

definition region_t_default :: region_t where
  "region_t_default =
     \<lparr>beg = 0, hend = 0,
      inner_range = \<lparr>left_bound = bound_closed, left_key = [],
                     right_bound = bound_open, right_key = []\<rparr>\<rparr>"

text \<open>
  One round of the loop of \<open>region_from_keys\<close> over the state
  \<open>(min_key, max_key, min_hash_value, max_hash_value)\<close>.
\<close>

definition region_from_keys_step ::
  "(store_key_t \<Rightarrow> 64 word) \<Rightarrow> store_key_t
   \<Rightarrow> store_key_t \<times> store_key_t \<times> 64 word \<times> 64 word
   \<Rightarrow> store_key_t \<times> store_key_t \<times> 64 word \<times> 64 word" where
  "region_from_keys_step hasher k st =
     (case st of (min_key, max_key, min_hash_value, max_hash_value) \<Rightarrow>
        (let min_key' = (if k < min_key then k else min_key);
             max_key' = (if k > max_key then k else max_key);
             hash_value = hasher k;
             min_hash_value' =
               (if hash_value < min_hash_value then hash_value else min_hash_value);
             max_hash_value' =
               (if hash_value > max_hash_value then hash_value else max_hash_value)
         in (min_key', max_key', min_hash_value', max_hash_value')))"

text \<open>
  \<open>hash_size\<close> is the constant \<open>HASH_REGION_HASH_SIZE\<close> and \<open>mks\<close> the maximal key
  length, both declared outside the sources at hand.
\<close>

definition region_from_keys ::
  "(store_key_t \<Rightarrow> 64 word) \<Rightarrow> 64 word \<Rightarrow> nat \<Rightarrow> store_key_t list \<Rightarrow> region_t" where
  "region_from_keys hasher hash_size mks keys =
     (if keys = [] then region_t_default
      else
        (case fold (region_from_keys_step hasher) keys
                (store_key_max mks, store_key_min, hash_size - 1, 0) of
           (min_key, max_key, min_hash_value, max_hash_value) \<Rightarrow>
             \<lparr>beg = min_hash_value, hend = max_hash_value + 1,
              inner_range = \<lparr>left_bound = bound_closed, left_key = min_key,
                             right_bound = bound_closed, right_key = max_key\<rparr>\<rparr>))"

fun rdb_w_get_region ::
  "('bs, 'row) shard_env \<Rightarrow> 64 word \<Rightarrow> nat \<Rightarrow> ('row, 'x) write_variant_t \<Rightarrow> region_t" where
  "rdb_w_get_region env hash_size mks (Batched_replace keys x) =
     region_from_keys (hash_region_hasher env) hash_size mks keys"
| "rdb_w_get_region env hash_size mks (Batched_insert inserts pkey x) =
     region_from_keys (hash_region_hasher env) hash_size mks
       (map (print_primary env pkey) inserts)"
| "rdb_w_get_region env hash_size mks (Point_write k x) =
     monokey_region (hash_region_hasher env) k"
| "rdb_w_get_region env hash_size mks (Point_delete k) =
     monokey_region (hash_region_hasher env) k"
| "rdb_w_get_region env hash_size mks (Sindex_create r x) = r"
| "rdb_w_get_region env hash_size mks (Sindex_drop r x) = r"
| "rdb_w_get_region env hash_size mks (Sindex_rename r x) = r"
| "rdb_w_get_region env hash_size mks (Sync r) = r"

section \<open>Responses\<close>

text \<open>
  A user-level error (\<open>ql::exc_t\<close>) is an opaque value of type \<open>'e\<close>, a datum one of type
  \<open>'d\<close>; a \<open>std::map\<close> from keys to counts is the list of its entries in key order. The
  response variants no function below reads keep an opaque payload.
\<close>

record ('e, 'r) rget_read_response_t =
  result :: "'e + 'r"
  key_range :: key_range_t
  truncated :: bool
  last_key :: store_key_t

record distribution_read_response_t =
  region :: region_t
  key_counts :: "(store_key_t \<times> int) list"

datatype ('e, 'r, 'd, 'o) response_variant_t =
    Point_read_response 'd
  | Rget_read_response "('e, 'r) rget_read_response_t"
  | Intersecting_geo_read_response "'e + 'd list"
  | Nearest_geo_read_response "'e + (real \<times> 'd) list"
  | Distribution_read_response distribution_read_response_t
  | Sindex_list_response 'o
  | Sindex_status_response 'o
  | Changefeed_subscribe_response 'o
  | Changefeed_stamp_response 'o
  | Changefeed_point_stamp_response 'o

record ('e, 'r, 'd, 'o, 'ev) read_response_t =
  response :: "('e, 'r, 'd, 'o) response_variant_t"
  event_log :: "'ev list"
  n_shards :: nat

section \<open>Unsharding a geo intersection read\<close>

text \<open>
  The loop over the responses with \<open>combined_results\<close> as its state: a response of
  another variant fails the \<open>guarantee\<close>, an error payload is returned at once.
\<close>

fun intersecting_geo_loop ::
  "('e, 'r, 'd, 'o, 'ev) read_response_t list \<Rightarrow> 'd list
   \<Rightarrow> crash + ('e, 'r, 'd, 'o) response_variant_t" where
  "intersecting_geo_loop [] combined_results =
     Inr (Intersecting_geo_read_response (Inr combined_results))"
| "intersecting_geo_loop (r # rs) combined_results =
     (case response r of
        Intersecting_geo_read_response results_or_error \<Rightarrow>
          (case results_or_error of
             Inl error \<Rightarrow> Inr (Intersecting_geo_read_response (Inl error))
           | Inr arr \<Rightarrow> intersecting_geo_loop rs (combined_results @ arr))
      | _ \<Rightarrow> Inl Guarantee_failed)"

definition unshard_intersecting_geo_read ::
  "('e, 'r, 'd, 'o, 'ev) read_response_t list
   \<Rightarrow> crash + ('e, 'r, 'd, 'o) response_variant_t" where
  "unshard_intersecting_geo_read responses = intersecting_geo_loop responses []"

section \<open>Unsharding a geo nearest read\<close>

text \<open>
  An \<open>iter_range_t\<close> is the part of a shard's result list from \<open>it\<close> to \<open>end\<close>. The
  first loop collects the non-empty result lists and the total size.
\<close>

fun nearest_collect ::
  "('e, 'r, 'd, 'o, 'ev) read_response_t list \<Rightarrow> (real \<times> 'd) list list \<Rightarrow> nat
   \<Rightarrow> crash + ('e + (real \<times> 'd) list list \<times> nat)" where
  "nearest_collect [] iters total_size = Inr (Inr (iters, total_size))"
| "nearest_collect (r # rs) iters total_size =
     (case response r of
        Nearest_geo_read_response results_or_error \<Rightarrow>
          (case results_or_error of
             Inl error \<Rightarrow> Inr (Inl error)
           | Inr results \<Rightarrow>
               nearest_collect rs
                 (if results \<noteq> [] then iters @ [results] else iters)
                 (total_size + length results))
      | _ \<Rightarrow> Inl Guarantee_failed)"

text \<open>
  The inner \<open>for\<close> loop: the state is \<open>(nearest_it_idx, nearest_it_dist)\<close>, started at
  \<open>(iters.size(), -1.0)\<close>.
\<close>

definition nearest_step ::
  "(real \<times> 'd) list list \<Rightarrow> nat \<Rightarrow> nat \<times> real \<Rightarrow> nat \<times> real" where
  "nearest_step iters i st =
     (case st of (nearest_it_idx, nearest_it_dist) \<Rightarrow>
        if nearest_it_idx = length iters \<or> fst (hd (iters ! i)) < nearest_it_dist
        then (i, fst (hd (iters ! i)))
        else (nearest_it_idx, nearest_it_dist))"

definition find_nearest :: "(real \<times> 'd) list list \<Rightarrow> nat \<times> real" where
  "find_nearest iters = fold (nearest_step iters) [0..<length iters] (length iters, - 1)"

definition erase_at :: "nat \<Rightarrow> 'a list \<Rightarrow> 'a list" where
  "erase_at i xs = take i xs @ drop (Suc i) xs"

function nearest_loop ::
  "nat \<Rightarrow> (real \<times> 'd) list list \<Rightarrow> (real \<times> 'd) list \<Rightarrow> crash + (real \<times> 'd) list" where
  "nearest_loop total_size iters combined_results =
     (if length combined_results < total_size then
        (let nearest_it_idx = fst (find_nearest iters) in
         if \<not> nearest_it_idx < length iters then Inl Guarantee_failed
         else
           (let it = iters ! nearest_it_idx;
                combined_results' = combined_results @ [hd it];
                it' = tl it;
                iters' = (if it' = [] then erase_at nearest_it_idx iters
                          else iters[nearest_it_idx := it'])
            in nearest_loop total_size iters' combined_results'))
      else Inr combined_results)"
  by pat_completeness auto
termination
  by (relation "measure (\<lambda>(total_size, iters, combined_results).
        total_size - length combined_results)") auto

definition unshard_nearest_geo_read ::
  "'x nearest_geo_read_t \<Rightarrow> ('e, 'r, 'd, 'o, 'ev) read_response_t list
   \<Rightarrow> crash + ('e, 'r, 'd, 'o) response_variant_t" where
  "unshard_nearest_geo_read query responses =
     (case nearest_collect responses [] 0 of
        Inl c \<Rightarrow> Inl c
      | Inr (Inl error) \<Rightarrow> Inr (Nearest_geo_read_response (Inl error))
      | Inr (Inr (iters, total_size)) \<Rightarrow>
          (case nearest_loop (min total_size (ngr_max_results query)) iters [] of
             Inl c \<Rightarrow> Inl c
           | Inr combined_results \<Rightarrow>
               Inr (Nearest_geo_read_response (Inr combined_results))))"

section \<open>Unsharding a range read\<close>

text \<open>
  The loop over the responses: the state is \<open>out->truncated\<close>, \<open>best\<close> (\<open>None\<close> for the
  null pointer) and the results gathered so far. It ends early, on the error, at the
  first response whose result is one.
\<close>

fun rget_scan ::
  "sorting_t \<Rightarrow> ('e, 'r, 'd, 'o, 'ev) read_response_t list
   \<Rightarrow> bool \<Rightarrow> store_key_t option \<Rightarrow> 'r list
   \<Rightarrow> crash + (bool \<times> 'e + bool \<times> store_key_t option \<times> 'r list)" where
  "rget_scan sorting [] out_truncated best results =
     Inr (Inr (out_truncated, best, results))"
| "rget_scan sorting (r # rs) out_truncated best results =
     (case response r of
        Rget_read_response resp \<Rightarrow>
          (let out_truncated' = (if truncated resp then True else out_truncated);
               best' =
                 (if truncated resp then
                    (case best of
                       None \<Rightarrow> Some (last_key resp)
                     | Some b \<Rightarrow>
                         if is_le sorting (last_key resp) b then Some (last_key resp)
                         else Some b)
                  else best)
           in case result resp of
                Inl exc \<Rightarrow> Inr (Inl (out_truncated', exc))
              | Inr res \<Rightarrow> rget_scan sorting rs out_truncated' best' (results @ [res]))
      | _ \<Rightarrow> Inl Guarantee_failed)"

text \<open>
  \<open>accumulate\<close> stands for the accumulator of the read (its terminal's, or the append
  accumulator of its sorting) run over the shards' results up to \<open>last_key\<close> and
  finished: it is declared outside the sources at hand and writes \<open>out->result\<close> only.
\<close>

definition unshard_rget_read ::
  "nat \<Rightarrow> (('bs, 'tm, 'x) rget_read_t \<Rightarrow> store_key_t \<Rightarrow> 'r list \<Rightarrow> 'e + 'r)
   \<Rightarrow> ('bs, 'tm, 'x) rget_read_t \<Rightarrow> ('e, 'r, 'd, 'o, 'ev) read_response_t list
   \<Rightarrow> crash + ('e, 'r, 'd, 'o) response_variant_t" where
  "unshard_rget_read mks accumulate rg responses =
     (case rget_scan (rg_sorting rg) responses False None [] of
        Inl c \<Rightarrow> Inl c
      | Inr (Inl (out_truncated, exc)) \<Rightarrow>
          Inr (Rget_read_response
                 \<lparr>result = Inl exc, key_range = inner_range (rg_region rg),
                  truncated = out_truncated, last_key = []\<rparr>)
      | Inr (Inr (out_truncated, best, results)) \<Rightarrow>
          (let out_last_key =
                 (case best of Some b \<Rightarrow> b | None \<Rightarrow> key_max mks (rg_sorting rg))
           in Inr (Rget_read_response
                     \<lparr>result = accumulate rg out_last_key results,
                      key_range = inner_range (rg_region rg),
                      truncated = out_truncated, last_key = out_last_key\<rparr>)))"

section \<open>Unsharding a distribution read\<close>

text \<open>
  \<open>scale_down_distribution\<close>: the inner loop adds the next \<open>combine\<close> entries (as far
  as there are any) to the entry at \<open>it\<close> and erases them; \<open>nxt\<close> is the rest of the map
  from \<open>next\<close> on.
\<close>

fun absorb ::
  "nat \<Rightarrow> nat \<Rightarrow> store_key_t \<times> int \<Rightarrow> (store_key_t \<times> int) list
   \<Rightarrow> (store_key_t \<times> int) \<times> (store_key_t \<times> int) list" where
  "absorb combine i it [] = (it, [])"
| "absorb combine i it (n # nxt) =
     (if i < combine then absorb combine (i + 1) (fst it, snd it + snd n) nxt
      else (it, n # nxt))"

lemma absorb_length: "length (snd (absorb combine i it nxt)) \<le> length nxt"
  by (induction nxt arbitrary: i it) (auto intro: le_SucI)

function scale_down_loop ::
  "nat \<Rightarrow> (store_key_t \<times> int) list \<Rightarrow> (store_key_t \<times> int) list" where
  "scale_down_loop combine [] = []"
| "scale_down_loop combine (it # nxt) =
     fst (absorb combine 0 it nxt) # scale_down_loop combine (snd (absorb combine 0 it nxt))"
  by pat_completeness auto
termination
  by (relation "measure (\<lambda>(combine, kcs). length kcs)")
    (auto simp: absorb_length less_Suc_eq_le)

definition scale_down_distribution ::
  "nat \<Rightarrow> (store_key_t \<times> int) list \<Rightarrow> crash + (store_key_t \<times> int) list" where
  "scale_down_distribution limit kcs =
     (if \<not> limit > 0 then Inl Guarantee_failed
      else Inr (scale_down_loop (length kcs div limit) kcs))"

text \<open>
  The sum of a histogram's counts in \<open>size_t\<close>: each \<open>int64_t\<close> count is converted to 64
  bits unsigned and the sum wraps.
\<close>

definition total_keys :: "(store_key_t \<times> int) list \<Rightarrow> nat" where
  "total_keys kc = fold (\<lambda>(k, c) t. (t + nat (c mod 2 ^ 64)) mod 2 ^ 64) kc 0"

text \<open>
  The inner \<open>while\<close> loop over the responses of one key range; the state is
  \<open>(i, largest_index, largest_size, total_range_keys)\<close>.
\<close>

function find_largest ::
  "distribution_read_response_t list \<Rightarrow> key_range_t \<Rightarrow> nat \<Rightarrow> nat \<Rightarrow> nat \<Rightarrow> nat
   \<Rightarrow> nat \<times> nat \<times> nat \<times> nat" where
  "find_largest results rng i largest_index largest_size total_range_keys =
     (if i < length results \<and> inner_range (region (results ! i)) = rng then
        (let tmp_total_keys = total_keys (key_counts (results ! i)) in
         find_largest results rng (i + 1)
           (if tmp_total_keys > largest_size then i else largest_index)
           (if tmp_total_keys > largest_size then tmp_total_keys else largest_size)
           ((total_range_keys + tmp_total_keys) mod 2 ^ 64))
      else (i, largest_index, largest_size, total_range_keys))"
  by pat_completeness auto
termination
  by (relation "measure (\<lambda>(results, rng, i, largest_index, largest_size,
        total_range_keys). length results - i)") auto

declare find_largest.simps [simp del]

text \<open>
  The floating-point steps are parameters: whether \<open>scale_factor >= 1.0\<close> holds for
  \<open>total_range_keys\<close> and \<open>largest_size\<close>, and the count \<open>mit->second * scale_factor\<close>
  converted back to \<open>int64_t\<close>.
\<close>

record float_env =
  scale_factor_ge_one :: "nat \<Rightarrow> nat \<Rightarrow> bool"
  scale_count :: "nat \<Rightarrow> nat \<Rightarrow> int \<Rightarrow> int"

text \<open>\<open>std::map::insert\<close>: an entry whose key the map holds already is not inserted.\<close>

fun map_insert ::
  "store_key_t \<Rightarrow> int \<Rightarrow> (store_key_t \<times> int) list \<Rightarrow> (store_key_t \<times> int) list" where
  "map_insert k v [] = [(k, v)]"
| "map_insert k v (e # m) =
     (if k = fst e then e # m
      else if k < fst e then (k, v) # e # m
      else e # map_insert k v m)"

definition map_insert_range ::
  "(store_key_t \<times> int) list \<Rightarrow> (store_key_t \<times> int) list \<Rightarrow> (store_key_t \<times> int) list" where
  "map_insert_range new m = fold (\<lambda>(k, v) m'. map_insert k v m') new m"

lemma find_largest_fst_ge:
  "i \<le> fst (find_largest results rng i largest_index largest_size total_range_keys)"
proof (induction results rng i largest_index largest_size total_range_keys
    rule: find_largest.induct)
  case (1 results rng i largest_index largest_size total_range_keys)
  show ?case
  proof (cases "i < length results \<and> inner_range (region (results ! i)) = rng")
    case True
    with "1" [OF True refl] show ?thesis
      by (subst find_largest.simps) (simp add: Let_def Suc_leD)
  next
    case False
    then show ?thesis by (subst find_largest.simps) auto
  qed
qed

lemma find_largest_advances:
  assumes "i < length results"
  shows "i < fst (find_largest results (inner_range (region (results ! i))) i li ls t)"
proof -
  have "Suc i \<le> fst (find_largest results (inner_range (region (results ! i))) i li ls t)"
    using assms
      find_largest_fst_ge [of "i + 1" results "inner_range (region (results ! i))"]
    by (subst find_largest.simps) (simp add: Let_def)
  then show ?thesis by simp
qed

text \<open>
  The outer \<open>while\<close> loop: \<open>res\<close> is \<open>res.key_counts\<close>. The scaled counts are written into
  \<open>results[largest_index]\<close>, an entry the loop does not read again.
\<close>

function distribution_groups ::
  "float_env \<Rightarrow> distribution_read_response_t list \<Rightarrow> nat \<Rightarrow> (store_key_t \<times> int) list
   \<Rightarrow> crash + (store_key_t \<times> int) list" where
  "distribution_groups fe results i res =
     (if i < length results then
        (let st = find_largest results (inner_range (region (results ! i))) i i 0 0;
             i' = fst st;
             largest_index = fst (snd st);
             largest_size = fst (snd (snd st));
             total_range_keys = snd (snd (snd st))
         in if largest_size > 0 then
              (if \<not> scale_factor_ge_one fe total_range_keys largest_size
               then Inl Guarantee_failed
               else distribution_groups fe results i'
                      (map_insert_range
                         (map (\<lambda>(k, c). (k, scale_count fe total_range_keys largest_size c))
                            (key_counts (results ! largest_index)))
                         res))
            else distribution_groups fe results i' res)
      else Inr res)"
  by pat_completeness auto
termination
  by (relation "measure (\<lambda>(fe, results, i, res). length results - i)")
    (auto intro!: diff_less_mono2 find_largest_advances)

fun distribution_extract ::
  "('e, 'r, 'd, 'o, 'ev) read_response_t list \<Rightarrow> crash + distribution_read_response_t list" where
  "distribution_extract [] = Inr []"
| "distribution_extract (r # rs) =
     (case response r of
        Distribution_read_response res \<Rightarrow>
          (case distribution_extract rs of
             Inl c \<Rightarrow> Inl c
           | Inr results \<Rightarrow> Inr (res # results))
      | _ \<Rightarrow> Inl Guarantee_failed)"

text \<open>
  The comparator of the sort; the orders of key ranges and of regions are declared
  outside the sources at hand, as is \<open>std::sort\<close>, and are parameters.
\<close>

definition distribution_read_response_less ::
  "(key_range_t \<Rightarrow> key_range_t \<Rightarrow> bool) \<Rightarrow> (region_t \<Rightarrow> region_t \<Rightarrow> bool)
   \<Rightarrow> distribution_read_response_t \<Rightarrow> distribution_read_response_t \<Rightarrow> bool" where
  "distribution_read_response_less key_range_less region_less x y =
     (if inner_range (region x) = inner_range (region y)
      then region_less (region x) (region y)
      else key_range_less (inner_range (region x)) (inner_range (region y)))"

definition unshard_distribution_read ::
  "float_env
   \<Rightarrow> ((distribution_read_response_t \<Rightarrow> distribution_read_response_t \<Rightarrow> bool)
       \<Rightarrow> distribution_read_response_t list \<Rightarrow> distribution_read_response_t list)
   \<Rightarrow> (key_range_t \<Rightarrow> key_range_t \<Rightarrow> bool) \<Rightarrow> (region_t \<Rightarrow> region_t \<Rightarrow> bool)
   \<Rightarrow> distribution_read_t \<Rightarrow> ('e, 'r, 'd, 'o, 'ev) read_response_t list
   \<Rightarrow> crash + ('e, 'r, 'd, 'o) response_variant_t" where
  "unshard_distribution_read fe std_sort key_range_less region_less dg responses =
     (if \<not> length responses > 0 then Inl Guarantee_failed
      else
        (case distribution_extract responses of
           Inl c \<Rightarrow> Inl c
         | Inr results \<Rightarrow>
             (case distribution_groups fe
                     (std_sort (distribution_read_response_less key_range_less region_less)
                        results) 0 [] of
                Inl c \<Rightarrow> Inl c
              | Inr kc \<Rightarrow>
                  (if result_limit dg > 0 \<and> length kc > result_limit dg then
                     (case scale_down_distribution (result_limit dg) kc of
                        Inl c \<Rightarrow> Inl c
                      | Inr kc' \<Rightarrow>
                          Inr (Distribution_read_response
                                 \<lparr>region = region_t_default, key_counts = kc'\<rparr>))
                   else Inr (Distribution_read_response
                               \<lparr>region = region_t_default, key_counts = kc\<rparr>)))))"

section \<open>Responses without an error, and what the claims speak of\<close>

text \<open>
  A response that is of the read's own variant and carries no error payload, for each
  of the three merging reads.
\<close>

definition rget_ok :: "('e, 'r, 'd, 'o, 'ev) read_response_t \<Rightarrow> bool" where
  "rget_ok r =
     (case response r of
        Rget_read_response resp \<Rightarrow> (case result resp of Inr res \<Rightarrow> True | Inl exc \<Rightarrow> False)
      | _ \<Rightarrow> False)"

definition intersecting_ok :: "('e, 'r, 'd, 'o, 'ev) read_response_t \<Rightarrow> bool" where
  "intersecting_ok r =
     (case response r of
        Intersecting_geo_read_response results_or_error \<Rightarrow>
          (case results_or_error of Inr arr \<Rightarrow> True | Inl error \<Rightarrow> False)
      | _ \<Rightarrow> False)"

definition nearest_ok :: "('e, 'r, 'd, 'o, 'ev) read_response_t \<Rightarrow> bool" where
  "nearest_ok r =
     (case response r of
        Nearest_geo_read_response results_or_error \<Rightarrow>
          (case results_or_error of Inr results \<Rightarrow> True | Inl error \<Rightarrow> False)
      | _ \<Rightarrow> False)"

text \<open>The \<open>last_key\<close> values of the truncated range-read responses, in shard order.\<close>

fun truncated_last_keys ::
  "('e, 'r, 'd, 'o, 'ev) read_response_t list \<Rightarrow> store_key_t list" where
  "truncated_last_keys [] = []"
| "truncated_last_keys (r # rs) =
     (case response r of
        Rget_read_response resp \<Rightarrow>
          (if truncated resp then last_key resp # truncated_last_keys rs
           else truncated_last_keys rs)
      | _ \<Rightarrow> truncated_last_keys rs)"

text \<open>The update of \<open>best\<close> by the \<open>last_key\<close> of one truncated response.\<close>

definition pick_best :: "sorting_t \<Rightarrow> store_key_t \<Rightarrow> store_key_t option \<Rightarrow> store_key_t option" where
  "pick_best sorting k best =
     (case best of
        None \<Rightarrow> Some k
      | Some b \<Rightarrow> if is_le sorting k b then Some k else Some b)"

text \<open>
  The bounding region of a key list: the hash interval from the least hash to one past
  the greatest, and the closed key range from the least key to the greatest.
\<close>

definition bounding_region :: "(store_key_t \<Rightarrow> 64 word) \<Rightarrow> store_key_t list \<Rightarrow> region_t" where
  "bounding_region hasher keys =
     \<lparr>beg = Min (hasher ` set keys), hend = Max (hasher ` set keys) + 1,
      inner_range = \<lparr>left_bound = bound_closed, left_key = Min (set keys),
                     right_bound = bound_closed, right_key = Max (set keys)\<rparr>\<rparr>"

text \<open>
  A response of the distribution variant, and the total of its histogram's counts (as
  the unshard sums it).
\<close>

definition distribution_ok :: "('e, 'r, 'd, 'o, 'ev) read_response_t \<Rightarrow> bool" where
  "distribution_ok r =
     (case response r of Distribution_read_response res \<Rightarrow> True | _ \<Rightarrow> False)"

definition response_total_keys :: "('e, 'r, 'd, 'o, 'ev) read_response_t \<Rightarrow> nat" where
  "response_total_keys r =
     (case response r of
        Distribution_read_response res \<Rightarrow> total_keys (key_counts res)
      | _ \<Rightarrow> 0)"

text \<open>The result list of a geo nearest response (empty for any other response).\<close>

definition nearest_results ::
  "('e, 'r, 'd, 'o, 'ev) read_response_t \<Rightarrow> (real \<times> 'd) list" where
  "nearest_results r =
     (case response r of
        Nearest_geo_read_response results_or_error \<Rightarrow>
          (case results_or_error of Inr results \<Rightarrow> results | Inl error \<Rightarrow> [])
      | _ \<Rightarrow> [])"

text \<open>
  \<open>merge_of_prefixes xss ys\<close>: the list \<open>ys\<close> interleaves prefixes of the lists \<open>xss\<close>,
  each prefix in its own order: every element of \<open>ys\<close> is the head of what is left of
  some list.
\<close>

inductive merge_of_prefixes :: "'a list list \<Rightarrow> 'a list \<Rightarrow> bool" where
  nothing: "merge_of_prefixes xss []"
| take_head: "i < length xss \<Longrightarrow> xss ! i = x # rest
     \<Longrightarrow> merge_of_prefixes (xss[i := rest]) ys \<Longrightarrow> merge_of_prefixes xss (x # ys)"

text \<open>
  \<open>stable_merge xss ys\<close>: as above, and each element taken is at no greater distance
  than any element left, and at a smaller one than the elements left in the lists
  before its own.
\<close>

inductive stable_merge :: "(real \<times> 'd) list list \<Rightarrow> (real \<times> 'd) list \<Rightarrow> bool" where
  stable_nothing: "stable_merge xss []"
| stable_take: "j < length xss \<Longrightarrow> xss ! j = x # rest
     \<Longrightarrow> (\<forall>j'<length xss. \<forall>e\<in>set (xss ! j'). fst x \<le> fst e \<and> (j' < j \<longrightarrow> fst x < fst e))
     \<Longrightarrow> stable_merge (xss[j := rest]) ys \<Longrightarrow> stable_merge xss (x # ys)"

section \<open>An environment for the examples\<close>

definition example_env :: "(nat, nat) shard_env" where
  "example_env =
     \<lparr>hash_region_hasher = (\<lambda>k. if k = [] then 2 else 7),
      region_intersection = (\<lambda>a b. a),
      region_is_empty = (\<lambda>a. hend a \<le> beg a),
      batchspec_scale_down = (\<lambda>b. b div 8),
      print_primary = (\<lambda>pkey row. [of_nat row])\<rparr>"

definition example_region :: region_t where
  "example_region =
     \<lparr>beg = 0, hend = 5,
      inner_range = \<lparr>left_bound = bound_none, left_key = [],
                     right_bound = bound_none, right_key = []\<rparr>\<rparr>"

definition example_rget_response ::
  "bool \<Rightarrow> store_key_t \<Rightarrow> (string, nat list, nat, nat, nat) read_response_t" where
  "example_rget_response tr k =
     \<lparr>response = Rget_read_response
        \<lparr>result = Inr [], key_range = inner_range example_region,
         truncated = tr, last_key = k\<rparr>,
      event_log = [], n_shards = 1\<rparr>"

definition example_rget_read :: "sorting_t \<Rightarrow> (nat, nat, nat) rget_read_t" where
  "example_rget_read sorting =
     \<lparr>rg_region = example_region, rg_batchspec = 8, rg_sorting = sorting,
      rg_terminal = None, rg_rest = 0\<rparr>"

definition example_rget_error :: "string \<Rightarrow> (string, nat list, nat, nat, nat) read_response_t" where
  "example_rget_error err =
     \<lparr>response = Rget_read_response
        \<lparr>result = Inl err, key_range = inner_range example_region,
         truncated = False, last_key = []\<rparr>,
      event_log = [], n_shards = 1\<rparr>"

definition example_geo_response ::
  "string + nat list \<Rightarrow> (string, nat list, nat, nat, nat) read_response_t" where
  "example_geo_response roe =
     \<lparr>response = Intersecting_geo_read_response roe, event_log = [], n_shards = 1\<rparr>"

definition example_nearest_response ::
  "string + (real \<times> nat) list \<Rightarrow> (string, nat list, nat, nat, nat) read_response_t" where
  "example_nearest_response roe =
     \<lparr>response = Nearest_geo_read_response roe, event_log = [], n_shards = 1\<rparr>"

definition example_nearest_read :: "nat \<Rightarrow> nat nearest_geo_read_t" where
  "example_nearest_read n =
     \<lparr>ngr_region = example_region, ngr_max_results = n, ngr_rest = 0\<rparr>"

definition example_float_env :: float_env where
  "example_float_env =
     \<lparr>scale_factor_ge_one = (\<lambda>total largest. largest \<le> total),
      scale_count = (\<lambda>total largest c. (c * int total) div int largest)\<rparr>"

definition example_distribution_response ::
  "(store_key_t \<times> int) list \<Rightarrow> (string, nat list, nat, nat, nat) read_response_t" where
  "example_distribution_response kc =
     \<lparr>response = Distribution_read_response \<lparr>region = example_region, key_counts = kc\<rparr>,
      event_log = [], n_shards = 1\<rparr>"

definition example_distribution_read :: "nat \<Rightarrow> distribution_read_t" where
  "example_distribution_read n = \<lparr>max_depth = 1, result_limit = n, dr_region = example_region\<rparr>"

section \<open>Properties of the secondary-index key range\<close>

declare strip_trailing_ff.simps [simp del]

lemma strip_trailing_ff_snoc:
  "strip_trailing_ff (xs @ [b]) = (if b = 255 then strip_trailing_ff xs else xs @ [b])"
  by (subst strip_trailing_ff.simps) (simp add: nth_append)

lemma strip_trailing_ff_Nil: "strip_trailing_ff [] = []"
  by (subst strip_trailing_ff.simps) simp

lemma strip_trailing_ff_decomp:
  "\<exists>n. k = strip_trailing_ff k @ replicate n 255"
proof (induction k rule: rev_induct)
  case Nil
  show ?case by (simp add: strip_trailing_ff_Nil)
next
  case (snoc b xs)
  then obtain n where n: "xs = strip_trailing_ff xs @ replicate n 255" by blast
  show ?case
  proof (cases "b = 255")
    case True
    have "xs @ [b] = (strip_trailing_ff xs @ replicate n 255) @ [255]"
      using n True by simp
    also have "\<dots> = strip_trailing_ff xs @ replicate (Suc n) 255"
      by (simp add: replicate_append_same)
    finally have e2: "xs @ [b] = strip_trailing_ff xs @ replicate (Suc n) 255" .
    have e1: "strip_trailing_ff (xs @ [b]) = strip_trailing_ff xs"
      using True by (simp add: strip_trailing_ff_snoc)
    have "xs @ [b] = strip_trailing_ff (xs @ [b]) @ replicate (Suc n) 255"
      by (subst e1) (rule e2)
    then show ?thesis by blast
  next
    case False
    then have "xs @ [b] = strip_trailing_ff (xs @ [b]) @ replicate 0 255"
      by (simp add: strip_trailing_ff_snoc)
    then show ?thesis by blast
  qed
qed

lemma strip_trailing_ff_last:
  "strip_trailing_ff k \<noteq> [] \<Longrightarrow> last (strip_trailing_ff k) \<noteq> 255"
  by (induction k rule: rev_induct) (auto simp: strip_trailing_ff_Nil strip_trailing_ff_snoc)

lemma strip_trailing_ff_empty_iff:
  "strip_trailing_ff k = [] \<longleftrightarrow> (\<forall>b\<in>set k. b = 255)"
  by (induction k rule: rev_induct) (auto simp: strip_trailing_ff_Nil strip_trailing_ff_snoc)

lemma append_less_bump:
  fixes b c :: "8 word"
  shows "b < c \<Longrightarrow> p @ b # xs < p @ [c]"
  by (induction p) auto

lemma replicate_le_replicate:
  fixes x :: "8 word"
  shows "m \<le> n \<Longrightarrow> replicate m x \<le> replicate n x"
proof (induction m arbitrary: n)
  case 0
  show ?case by simp
next
  case (Suc m)
  then obtain n' where "n = Suc n'" by (cases n) auto
  with Suc show ?case by simp
qed

lemma word8_less_succ:
  fixes b :: "8 word"
  shows "b \<noteq> 255 \<Longrightarrow> b < b + 1"
proof -
  assume a: "b \<noteq> 255"
  have "b \<noteq> - 1"
  proof
    assume "b = - 1"
    then have "b = 255" by simp
    with a show False by contradiction
  qed
  then have "\<not> b + 1 \<le> b" by (simp add: inc_less_eq_self_iff_eq)
  then show ?thesis by simp
qed

lemma increment_last:
  "s \<noteq> [] \<Longrightarrow> s[length s - 1 := s ! (length s - 1) + 1] = butlast s @ [last s + 1]"
  by (cases s rule: rev_cases) (simp_all add: nth_append)

lemma sindex_end_key_all_ff:
  assumes "\<forall>b\<in>set k. b = 255"
  shows "sindex_end_key mks k = store_key_max mks"
  using assms by (simp add: sindex_end_key_def strip_trailing_ff_empty_iff [symmetric])

lemma all_ff_replicate:
  fixes k :: store_key_t
  assumes "\<forall>b\<in>set k. b = 255"
  shows "k = replicate (length k) 255"
  using assms by (induction k) auto

lemma sindex_end_key_bump:
  assumes "\<not> (\<forall>b\<in>set k. b = 255)"
  shows "sindex_end_key mks k =
           butlast (strip_trailing_ff k) @ [last (strip_trailing_ff k) + 1]
         \<and> k < sindex_end_key mks k \<and> length (sindex_end_key mks k) \<le> length k"
proof -
  let ?s = "strip_trailing_ff k"
  from assms have ne: "?s \<noteq> []" by (simp add: strip_trailing_ff_empty_iff)
  then have e: "sindex_end_key mks k = butlast ?s @ [last ?s + 1]"
    using increment_last [of ?s] by (simp add: sindex_end_key_def Let_def)
  obtain n where n: "k = ?s @ replicate n 255"
    using strip_trailing_ff_decomp [of k] by blast
  have s: "?s = butlast ?s @ [last ?s]" using ne by simp
  have "last ?s < last ?s + 1"
    using strip_trailing_ff_last [OF ne] by (rule word8_less_succ)
  then have "butlast ?s @ last ?s # replicate n 255 < butlast ?s @ [last ?s + 1]"
    by (rule append_less_bump)
  moreover have "k = butlast ?s @ last ?s # replicate n 255"
    by (subst n, subst s) simp
  ultimately have lt: "k < sindex_end_key mks k" by (simp only: e)
  have "length (sindex_end_key mks k) = length ?s" using ne by (simp add: e)
  also have "\<dots> \<le> length k" by (subst (2) n) simp
  finally show ?thesis using e lt by blast
qed

lemma strip_trailing_ff_example:
  "strip_trailing_ff [97, 98, 255, 255] = [97, 98]"
  using strip_trailing_ff_snoc [of "[97, 98, 255]" 255]
    strip_trailing_ff_snoc [of "[97, 98]" 255] strip_trailing_ff_snoc [of "[97]" 98]
  by simp

text \<open>
  The three examples: the end keys \<open>"ab\xff\xff"\<close>, \<open>"\xff\xff"\<close> and \<open>"a"\<close> give \<open>"ac"\<close>,
  the maximal key and \<open>"b"\<close>.
\<close>

lemma sindex_end_key_examples:
  "sindex_end_key mks [97, 98, 255, 255] = [97, 99]"
  "sindex_end_key mks [255, 255] = store_key_max mks"
  "sindex_end_key mks [97] = [98]"
proof -
  show "sindex_end_key mks [97, 98, 255, 255] = [97, 99]"
    by (simp add: sindex_end_key_def strip_trailing_ff_example)
  show "sindex_end_key mks [255, 255] = store_key_max mks"
    by (rule sindex_end_key_all_ff) simp
  have "strip_trailing_ff [97] = [97]"
    using strip_trailing_ff_snoc [of "[]" 97] by simp
  then show "sindex_end_key mks [97] = [98]"
    by (simp add: sindex_end_key_def)
qed

text \<open>
  C4, as the code has it. For a right-bound key \<open>k\<close> of at most \<open>mks\<close> bytes the
  range is closed on the left at \<open>start\<close> and open on the right. If \<open>k\<close> has a byte
  other than \<open>0xFF\<close>, the right key is \<open>k\<close> without its trailing \<open>0xFF\<close> bytes and
  with the last remaining byte incremented; it is greater than \<open>k\<close> and not longer.
  If \<open>k\<close> is empty or all \<open>0xFF\<close>, the right key is the maximal key, which is not
  below \<open>k\<close> (and may be longer than \<open>k\<close>, or \<open>k\<close> itself).
\<close>

theorem sindex_key_range_successor:
  assumes "valid_key mks k"
  shows "left_bound (sindex_key_range mks start k) = bound_closed
       \<and> left_key (sindex_key_range mks start k) = start
       \<and> right_bound (sindex_key_range mks start k) = bound_open
       \<and> (if \<exists>b\<in>set k. b \<noteq> 255
          then right_key (sindex_key_range mks start k)
                 = butlast (strip_trailing_ff k) @ [last (strip_trailing_ff k) + 1]
             \<and> k < right_key (sindex_key_range mks start k)
             \<and> length (right_key (sindex_key_range mks start k)) \<le> length k
          else right_key (sindex_key_range mks start k) = store_key_max mks
             \<and> k \<le> right_key (sindex_key_range mks start k))"
proof (cases "\<exists>b\<in>set k. b \<noteq> 255")
  case True
  then have "\<not> (\<forall>b\<in>set k. b = 255)" by blast
  from sindex_end_key_bump [OF this, of mks]
  have e: "sindex_end_key mks k
             = butlast (strip_trailing_ff k) @ [last (strip_trailing_ff k) + 1]"
    and lt: "k < sindex_end_key mks k"
    and len: "length (sindex_end_key mks k) \<le> length k"
    by blast+
  have rk: "right_key (sindex_key_range mks start k) = sindex_end_key mks k"
    by (simp add: sindex_key_range_def)
  show ?thesis unfolding rk using True e lt len
    by (simp add: sindex_key_range_def)
next
  case False
  then have a: "\<forall>b\<in>set k. b = 255" by blast
  have "k = replicate (length k) 255" using a by (rule all_ff_replicate)
  moreover have "replicate (length k) (255 :: 8 word) \<le> replicate mks 255"
    using assms by (intro replicate_le_replicate) (simp add: valid_key_def)
  ultimately have "k \<le> store_key_max mks" by (simp add: store_key_max_def)
  with sindex_end_key_all_ff [OF a, of mks] False show ?thesis
    by (simp add: sindex_key_range_def)
qed

theorem sindex_key_range_successor_witness:
  "valid_key 250 [97, 98, 255, 255]
   \<and> sindex_key_range 250 [] [97, 98, 255, 255]
       = \<lparr>left_bound = bound_closed, left_key = [],
          right_bound = bound_open, right_key = [97, 99]\<rparr>
   \<and> [97, 98, 255, 255] < [97, 99 :: 8 word]"
  using sindex_key_range_successor [of 250 "[97, 98, 255, 255]" "[]"]
  by (simp add: valid_key_def strip_trailing_ff_example)

text \<open>
  C4 as stated fails: the maximal key, the right bound of a range that has none, is
  its own successor, and the successor of \<open>"\xff\xff"\<close> is the maximal key, which is
  longer.
\<close>

theorem sindex_key_range_successor_counterexample:
  "\<not> store_key_max 250 < right_key (sindex_key_range 250 [] (store_key_max 250))
   \<and> \<not> length (right_key (sindex_key_range 250 [] [255, 255])) \<le> length [255, 255 :: 8 word]"
proof -
  have "sindex_end_key 250 (store_key_max 250) = store_key_max 250"
    by (rule sindex_end_key_all_ff) (simp add: store_key_max_def)
  moreover have "sindex_end_key 250 [255, 255] = store_key_max 250"
    by (rule sindex_end_key_all_ff) simp
  moreover have "length (store_key_max 250) = 250"
    by (simp add: store_key_max_def)
  ultimately show ?thesis by (simp add: sindex_key_range_def)
qed

section \<open>Properties of the sharder\<close>

text \<open>
  C1. Sharding a keyed operation (\<open>point_read\<close>, \<open>sindex_list\<close>, \<open>changefeed_point_stamp\<close>,
  \<open>point_write\<close>, \<open>point_delete\<close>) by a region succeeds exactly when the region contains
  the operation's key (the empty key for \<open>sindex_list\<close>), and the operation it then
  gives is the original one.
\<close>

theorem keyed_shard:
  fixes env :: "('bs, 'row) shard_env"
    and d :: "('bs, 'tm, 'x) read_variant_t"
    and dw :: "('row, 'x) write_variant_t"
    and durability :: 'dur and lim :: 'lim
  shows
  "read_shard env d R \<lparr>read = Point_read k, profile = p\<rparr> =
     (if region_contains_key (hash_region_hasher env) R k
      then (True, \<lparr>read = Point_read k, profile = p\<rparr>)
      else (False, \<lparr>read = d, profile = p\<rparr>))
   \<and> read_shard env d R \<lparr>read = Sindex_list, profile = p\<rparr> =
     (if region_contains_key (hash_region_hasher env) R []
      then (True, \<lparr>read = Sindex_list, profile = p\<rparr>)
      else (False, \<lparr>read = d, profile = p\<rparr>))
   \<and> read_shard env d R \<lparr>read = Changefeed_point_stamp k x, profile = p\<rparr> =
     (if region_contains_key (hash_region_hasher env) R k
      then (True, \<lparr>read = Changefeed_point_stamp k x, profile = p\<rparr>)
      else (False, \<lparr>read = d, profile = p\<rparr>))
   \<and> write_shard env dw R
        \<lparr>write_op = Point_write k x, durability_requirement = durability,
         w_profile = p, limits = lim\<rparr> =
     (if region_contains_key (hash_region_hasher env) R k
      then (True, \<lparr>write_op = Point_write k x, durability_requirement = durability,
                   w_profile = p, limits = lim\<rparr>)
      else (False, \<lparr>write_op = dw, durability_requirement = durability,
                    w_profile = p, limits = lim\<rparr>))
   \<and> write_shard env dw R
        \<lparr>write_op = Point_delete k, durability_requirement = durability,
         w_profile = p, limits = lim\<rparr> =
     (if region_contains_key (hash_region_hasher env) R k
      then (True, \<lparr>write_op = Point_delete k, durability_requirement = durability,
                   w_profile = p, limits = lim\<rparr>)
      else (False, \<lparr>write_op = dw, durability_requirement = durability,
                    w_profile = p, limits = lim\<rparr>))"
  by (simp add: read_shard_def write_shard_def keyed_read_def keyed_write_def
      sindex_list_region_key_def)

lemma rdb_r_shard_visitor_declined:
  "\<not> fst (rdb_r_shard_visitor env R d op) \<Longrightarrow> snd (rdb_r_shard_visitor env R d op) = d"
  by (cases op)
    (auto simp: keyed_read_def rangey_read_def Let_def
      split: if_splits prod.splits bool.splits read_variant_t.splits)

lemma rdb_w_shard_visitor_declined:
  "\<not> fst (rdb_w_shard_visitor env R d op) \<Longrightarrow> snd (rdb_w_shard_visitor env R d op) = d"
  by (cases op) (auto simp: keyed_write_def rangey_write_def Let_def split: if_splits)

text \<open>
  C10. \<open>read_t::shard\<close> and \<open>write_t::shard\<close> assign their output on every call: it carries
  the profile flag of the original (and, for a write, its durability requirement and
  limits), and the default-constructed payload when the shard is declined.
\<close>

theorem shard_assigns_output:
  fixes env :: "('bs, 'row) shard_env"
    and d :: "('bs, 'tm, 'x) read_variant_t"
    and dw :: "('row, 'x) write_variant_t"
    and r :: "('bs, 'tm, 'x) read_t"
    and w :: "('row, 'x, 'dur, 'lim) write_t"
  shows
  "profile (snd (read_shard env d R r)) = profile r
   \<and> (\<not> fst (read_shard env d R r) \<longrightarrow> read (snd (read_shard env d R r)) = d)
   \<and> w_profile (snd (write_shard env dw R w)) = w_profile w
   \<and> durability_requirement (snd (write_shard env dw R w)) = durability_requirement w
   \<and> limits (snd (write_shard env dw R w)) = limits w
   \<and> (\<not> fst (write_shard env dw R w) \<longrightarrow> write_op (snd (write_shard env dw R w)) = dw)"
  using rdb_r_shard_visitor_declined [of env R d "read r"]
    rdb_w_shard_visitor_declined [of env R dw "write_op w"]
  by (auto simp: read_shard_def write_shard_def split: prod.splits)

lemma example_contains:
  "region_contains_key (hash_region_hasher example_env) example_region k \<longleftrightarrow> k = []"
  by (simp add: example_env_def example_region_def region_contains_key_def contains_key_def)

theorem shard_assigns_output_witness:
  "read_shard example_env (Point_read []) example_region
     \<lparr>read = (Point_read [1] :: (nat, nat, nat) read_variant_t), profile = PROFILE\<rparr>
   = (False, \<lparr>read = Point_read [], profile = PROFILE\<rparr>)
   \<and> write_shard example_env (Batched_replace [] 0) example_region
       \<lparr>write_op = (Point_delete [1] :: (nat, nat) write_variant_t),
        durability_requirement = True, w_profile = DONT_PROFILE, limits = (100 :: nat)\<rparr>
   = (False, \<lparr>write_op = Batched_replace [] 0, durability_requirement = True,
              w_profile = DONT_PROFILE, limits = 100\<rparr>)"
proof -
  let ?r = "\<lparr>read = (Point_read [1] :: (nat, nat, nat) read_variant_t), profile = PROFILE\<rparr>"
  let ?w = "\<lparr>write_op = (Point_delete [1] :: (nat, nat) write_variant_t),
             durability_requirement = True, w_profile = DONT_PROFILE, limits = (100 :: nat)\<rparr>"
  have fr: "\<not> fst (read_shard example_env (Point_read []) example_region ?r)"
    by (simp add: read_shard_def keyed_read_def example_contains)
  have fw: "\<not> fst (write_shard example_env (Batched_replace [] 0) example_region ?w)"
    by (simp add: write_shard_def keyed_write_def example_contains)
  from shard_assigns_output [of example_env "Point_read []" example_region ?r
      "Batched_replace [] 0" ?w] fr fw
  have "snd (read_shard example_env (Point_read []) example_region ?r)
          = \<lparr>read = Point_read [], profile = PROFILE\<rparr>"
    and "snd (write_shard example_env (Batched_replace [] 0) example_region ?w)
          = \<lparr>write_op = Batched_replace [] 0, durability_requirement = True,
             w_profile = DONT_PROFILE, limits = 100\<rparr>"
    by simp_all
  with fr fw show ?thesis by (simp add: prod_eq_iff)
qed

section \<open>Properties of the distribution scale-down\<close>

text \<open>
  C8, as the code has it. With ten buckets of counts 1 to 10 and a limit of 5,
  \<open>combine\<close> is 2 and each kept bucket absorbs the two that follow it: the result has
  the four buckets 1+2+3, 4+5+6, 7+8+9 and 10.
\<close>

theorem scale_down_ten_buckets:
  "scale_down_distribution 5
     [([1], 1), ([2], 2), ([3], 3), ([4], 4), ([5], 5),
      ([6], 6), ([7], 7), ([8], 8), ([9], 9), ([10], 10)]
   = Inr [([1], 6), ([4], 15), ([7], 24), ([10], 10)]"
  by (simp add: scale_down_distribution_def)

text \<open>C8 as stated fails: the counts of the result are not 3, 7, 11, 15, 19.\<close>

theorem scale_down_ten_buckets_counterexample:
  "\<not> map snd (case scale_down_distribution 5
                    [([1], 1), ([2], 2), ([3], 3), ([4], 4), ([5], 5),
                     ([6], 6), ([7], 7), ([8], 8), ([9], 9), ([10], 10)] of
                  Inr kc \<Rightarrow> kc | Inl c \<Rightarrow> [])
     = [3, 7, 11, 15, 19]"
  by (simp add: scale_down_distribution_def)

section \<open>Properties of the range-read unshard\<close>

lemma rget_scan_ok:
  assumes "list_all rget_ok rs"
  shows "\<exists>results'. rget_scan sorting rs tr best results =
           Inr (Inr (tr \<or> truncated_last_keys rs \<noteq> [],
                     fold (pick_best sorting) (truncated_last_keys rs) best, results'))"
  using assms
proof (induction rs arbitrary: tr best results)
  case Nil
  show ?case by simp
next
  case (Cons r rs)
  from Cons.prems have okr: "rget_ok r" and rs: "list_all rget_ok rs" by simp_all
  from okr obtain resp where r1: "response r = Rget_read_response resp"
    by (cases "response r") (simp_all add: rget_ok_def)
  from okr r1 obtain res where r2: "result resp = Inr res"
    by (cases "result resp") (simp_all add: rget_ok_def)
  note r = r1 r2
  show ?case
  proof (cases "truncated resp")
    case True
    from Cons.IH [OF rs, of True "pick_best sorting (last_key resp) best" "results @ [res]"]
    show ?thesis using r True by (auto simp: pick_best_def Let_def)
  next
    case False
    from Cons.IH [OF rs, of tr best "results @ [res]"]
    show ?thesis using r False by (auto simp: Let_def)
  qed
qed

lemma is_le_refl: "is_le sorting k k"
  by (simp add: is_le_def)

lemma is_le_trans: "is_le sorting a b \<Longrightarrow> is_le sorting b c \<Longrightarrow> is_le sorting a c"
  by (auto simp: is_le_def)

lemma is_le_total: "\<not> is_le sorting a b \<Longrightarrow> is_le sorting b a"
  by (auto simp: is_le_def)

lemma fold_pick_best_Some:
  "\<exists>m. fold (pick_best sorting) ks (Some b) = Some m
       \<and> m \<in> insert b (set ks)
       \<and> (\<forall>k\<in>insert b (set ks). is_le sorting m k)"
proof (induction ks arbitrary: b)
  case Nil
  show ?case by (simp add: is_le_refl)
next
  case (Cons k ks)
  show ?case
  proof (cases "is_le sorting k b")
    case True
    from Cons.IH [of k] obtain m where m: "fold (pick_best sorting) ks (Some k) = Some m"
      "m \<in> insert k (set ks)" "\<forall>x\<in>insert k (set ks). is_le sorting m x" by blast
    from m(3) have "is_le sorting m k" by simp
    with True have "is_le sorting m b" by (rule is_le_trans [rotated])
    moreover have "fold (pick_best sorting) (k # ks) (Some b)
                     = fold (pick_best sorting) ks (Some k)"
      using True by (simp add: pick_best_def)
    ultimately show ?thesis using m by auto
  next
    case False
    from Cons.IH [of b] obtain m where m: "fold (pick_best sorting) ks (Some b) = Some m"
      "m \<in> insert b (set ks)" "\<forall>x\<in>insert b (set ks). is_le sorting m x" by blast
    from m(3) have "is_le sorting m b" by simp
    moreover from False have "is_le sorting b k" by (rule is_le_total)
    ultimately have "is_le sorting m k" by (rule is_le_trans)
    moreover have "fold (pick_best sorting) (k # ks) (Some b)
                     = fold (pick_best sorting) ks (Some b)"
      using False by (simp add: pick_best_def)
    ultimately show ?thesis using m by auto
  qed
qed

lemma fold_pick_best_None:
  assumes "ks \<noteq> []"
  shows "\<exists>m. fold (pick_best sorting) ks None = Some m
       \<and> m \<in> set ks \<and> (\<forall>k\<in>set ks. is_le sorting m k)"
proof -
  from assms obtain k ks' where ks: "ks = k # ks'" by (cases ks) auto
  from fold_pick_best_Some [of sorting ks' k] show ?thesis
    by (simp add: ks pick_best_def)
qed

text \<open>
  C2. When every per-shard response is a range-read response without an error, the
  unsharded response is one too. If no shard was truncated it is not truncated and
  its \<open>last_key\<close> is the sentinel \<open>key_max\<close> of the sorting: the maximal key (\<open>mks\<close>
  bytes \<open>0xFF\<close>), or the minimal, empty key for a descending sort. If some shard was
  truncated it is truncated and its \<open>last_key\<close> is one of the truncated shards'
  \<open>last_key\<close> values and least among them under the comparator of the sorting: not
  above any of them, or not below any of them for a descending sort.
\<close>

theorem rget_unshard_last_key:
  assumes "list_all rget_ok responses"
  shows "\<exists>out. unshard_rget_read mks accumulate rg responses = Inr (Rget_read_response out)
           \<and> (if truncated_last_keys responses = []
              then \<not> truncated out \<and> last_key out = key_max mks (rg_sorting rg)
                 \<and> last_key out
                     = (if rg_sorting rg = DESCENDING then [] else replicate mks 255)
              else truncated out
                 \<and> last_key out \<in> set (truncated_last_keys responses)
                 \<and> (\<forall>k\<in>set (truncated_last_keys responses).
                       is_le (rg_sorting rg) (last_key out) k)
                 \<and> (\<forall>k\<in>set (truncated_last_keys responses).
                       if rg_sorting rg = DESCENDING then k \<le> last_key out
                       else last_key out \<le> k))"
proof -
  from rget_scan_ok [OF assms, of "rg_sorting rg" False None "[]"]
  obtain results where scan:
    "rget_scan (rg_sorting rg) responses False None [] =
       Inr (Inr (truncated_last_keys responses \<noteq> [],
                 fold (pick_best (rg_sorting rg)) (truncated_last_keys responses) None,
                 results))"
    by auto
  show ?thesis
  proof (cases "truncated_last_keys responses = []")
    case True
    have "key_max mks (rg_sorting rg)
            = (if rg_sorting rg = DESCENDING then [] else replicate mks 255)"
      by (simp add: key_max_def reversed_def store_key_max_def store_key_min_def)
    with scan True show ?thesis by (simp add: unshard_rget_read_def Let_def)
  next
    case False
    from fold_pick_best_None [OF False, of "rg_sorting rg"] obtain m where
      m: "fold (pick_best (rg_sorting rg)) (truncated_last_keys responses) None = Some m"
      "m \<in> set (truncated_last_keys responses)"
      "\<forall>k\<in>set (truncated_last_keys responses). is_le (rg_sorting rg) m k"
      by blast
    from m(3) have "\<forall>k\<in>set (truncated_last_keys responses).
        if rg_sorting rg = DESCENDING then k \<le> m else m \<le> k"
      by (auto simp: is_le_def reversed_def)
    with m scan False show ?thesis by (simp add: unshard_rget_read_def Let_def)
  qed
qed

text \<open>
  Ascending sort, two shards truncated at \<open>"m"\<close> and \<open>"q"\<close>: truncated at \<open>"m"\<close>. No
  shard truncated: the maximal key for the ascending sort, the empty key for the
  descending one.
\<close>

theorem rget_unshard_last_key_witness:
  "unshard_rget_read 250 (\<lambda>rg k results. Inr (concat results))
     (example_rget_read ASCENDING)
     [example_rget_response True [109], example_rget_response True [113]]
   = Inr (Rget_read_response
            \<lparr>result = Inr [], key_range = inner_range example_region,
             truncated = True, last_key = [109]\<rparr>)
   \<and> unshard_rget_read 250 (\<lambda>rg k results. Inr (concat results))
     (example_rget_read ASCENDING)
     [example_rget_response False [109], example_rget_response False [113]]
   = Inr (Rget_read_response
            \<lparr>result = Inr [], key_range = inner_range example_region,
             truncated = False, last_key = replicate 250 255\<rparr>)
   \<and> unshard_rget_read 250 (\<lambda>rg k results. Inr (concat results))
     (example_rget_read DESCENDING)
     [example_rget_response False [109], example_rget_response False [113]]
   = Inr (Rget_read_response
            \<lparr>result = Inr [], key_range = inner_range example_region,
             truncated = False, last_key = []\<rparr>)"
proof -
  let ?rs = "[example_rget_response True [109], example_rget_response True [113]]"
  let ?ns = "[example_rget_response False [109], example_rget_response False [113]]"
  let ?acc = "\<lambda>(rg :: (nat, nat, nat) rget_read_t) (k :: store_key_t)
                 (results :: nat list list). (Inr (concat results) :: string + nat list)"
  have ok: "list_all rget_ok ?rs"
    by (simp add: rget_ok_def example_rget_response_def)
  have tk: "truncated_last_keys ?rs = [[109], [113]]"
    by (simp add: example_rget_response_def)
  from rget_unshard_last_key [OF ok, of 250 ?acc "example_rget_read ASCENDING"]
  obtain out where out: "unshard_rget_read 250 ?acc
      (example_rget_read ASCENDING) ?rs = Inr (Rget_read_response out)"
    and t: "truncated out"
    and lk: "last_key out \<in> set (truncated_last_keys ?rs)"
    and le: "\<forall>k\<in>set (truncated_last_keys ?rs).
               if rg_sorting (example_rget_read ASCENDING) = DESCENDING
               then k \<le> last_key out else last_key out \<le> k"
    unfolding tk by (auto split: if_splits)
  from lk le have "last_key out = [109]"
    unfolding tk by (auto simp: example_rget_read_def)
  moreover have "result out = Inr []" "key_range out = inner_range example_region"
    using out by (auto simp: unshard_rget_read_def example_rget_response_def
        example_rget_read_def Let_def split: sum.splits prod.splits)
  ultimately have "out = \<lparr>result = Inr [], key_range = inner_range example_region,
             truncated = True, last_key = [109]\<rparr>"
    using t by simp
  with out have first: "unshard_rget_read 250 ?acc (example_rget_read ASCENDING) ?rs
   = Inr (Rget_read_response
            \<lparr>result = Inr [], key_range = inner_range example_region,
             truncated = True, last_key = [109]\<rparr>)" by simp
  have okn: "list_all rget_ok ?ns"
    by (simp add: rget_ok_def example_rget_response_def)
  have tkn: "truncated_last_keys ?ns = []"
    by (simp add: example_rget_response_def)
  have second: "unshard_rget_read 250 ?acc (example_rget_read ASCENDING) ?ns
   = Inr (Rget_read_response
            \<lparr>result = Inr [], key_range = inner_range example_region,
             truncated = False, last_key = replicate 250 255\<rparr>)"
  proof -
    from rget_unshard_last_key [OF okn, of 250 ?acc "example_rget_read ASCENDING"]
    obtain o2 where o2: "unshard_rget_read 250 ?acc
        (example_rget_read ASCENDING) ?ns = Inr (Rget_read_response o2)"
      and t2: "\<not> truncated o2"
      and l2: "last_key o2 = (if rg_sorting (example_rget_read ASCENDING) = DESCENDING
                              then [] else replicate 250 255)"
      unfolding tkn by auto
    have "result o2 = Inr []" "key_range o2 = inner_range example_region"
      using o2 by (auto simp: unshard_rget_read_def example_rget_response_def
          example_rget_read_def Let_def split: sum.splits prod.splits)
    with t2 l2 have "o2 = \<lparr>result = Inr [], key_range = inner_range example_region,
             truncated = False, last_key = replicate 250 255\<rparr>"
      by (simp add: example_rget_read_def)
    with o2 show ?thesis by simp
  qed
  have third: "unshard_rget_read 250 ?acc (example_rget_read DESCENDING) ?ns
   = Inr (Rget_read_response
            \<lparr>result = Inr [], key_range = inner_range example_region,
             truncated = False, last_key = []\<rparr>)"
  proof -
    from rget_unshard_last_key [OF okn, of 250 ?acc "example_rget_read DESCENDING"]
    obtain o3 where o3: "unshard_rget_read 250 ?acc
        (example_rget_read DESCENDING) ?ns = Inr (Rget_read_response o3)"
      and t3: "\<not> truncated o3"
      and l3: "last_key o3 = (if rg_sorting (example_rget_read DESCENDING) = DESCENDING
                              then [] else replicate 250 255)"
      unfolding tkn by auto
    have "result o3 = Inr []" "key_range o3 = inner_range example_region"
      using o3 by (auto simp: unshard_rget_read_def example_rget_response_def
          example_rget_read_def Let_def split: sum.splits prod.splits)
    with t3 l3 have "o3 = \<lparr>result = Inr [], key_range = inner_range example_region,
             truncated = False, last_key = []\<rparr>"
      by (simp add: example_rget_read_def)
    with o3 show ?thesis by simp
  qed
  from first second third show ?thesis by (intro conjI)
qed

section \<open>The first error wins\<close>

lemma intersecting_geo_loop_error:
  assumes "list_all intersecting_ok pre"
    and "response e = Intersecting_geo_read_response (Inl err)"
  shows "intersecting_geo_loop (pre @ e # post) combined
           = Inr (Intersecting_geo_read_response (Inl err))"
  using assms(1)
proof (induction pre arbitrary: combined)
  case Nil
  show ?case using assms(2) by simp
next
  case (Cons r pre)
  from Cons.prems have okr: "intersecting_ok r" and pre: "list_all intersecting_ok pre"
    by simp_all
  from okr obtain roe where r1: "response r = Intersecting_geo_read_response roe"
    by (cases "response r") (simp_all add: intersecting_ok_def)
  from okr r1 obtain arr where r2: "roe = Inr arr"
    by (cases roe) (simp_all add: intersecting_ok_def)
  show ?case using Cons.IH [OF pre] r1 r2 by simp
qed

lemma nearest_collect_error:
  assumes "list_all nearest_ok pre"
    and "response e = Nearest_geo_read_response (Inl err)"
  shows "nearest_collect (pre @ e # post) iters n = Inr (Inl err)"
  using assms(1)
proof (induction pre arbitrary: iters n)
  case Nil
  show ?case using assms(2) by simp
next
  case (Cons r pre)
  from Cons.prems have okr: "nearest_ok r" and pre: "list_all nearest_ok pre"
    by simp_all
  from okr obtain roe where r1: "response r = Nearest_geo_read_response roe"
    by (cases "response r") (simp_all add: nearest_ok_def)
  from okr r1 obtain results where r2: "roe = Inr results"
    by (cases roe) (simp_all add: nearest_ok_def)
  show ?case using Cons.IH [OF pre] r1 r2 by simp
qed

lemma rget_scan_error:
  assumes "list_all rget_ok pre"
    and "response e = Rget_read_response resp" and "result resp = Inl err"
  shows "\<exists>tr'. rget_scan sorting (pre @ e # post) tr best results = Inr (Inl (tr', err))"
  using assms(1)
proof (induction pre arbitrary: tr best results)
  case Nil
  show ?case using assms(2,3) by (simp add: Let_def)
next
  case (Cons r pre)
  from Cons.prems have okr: "rget_ok r" and pre: "list_all rget_ok pre" by simp_all
  from okr obtain resp' where r1: "response r = Rget_read_response resp'"
    by (cases "response r") (simp_all add: rget_ok_def)
  from okr r1 obtain res where r2: "result resp' = Inr res"
    by (cases "result resp'") (simp_all add: rget_ok_def)
  show ?case using Cons.IH [OF pre] r1 r2 by (simp add: Let_def)
qed

text \<open>
  C9. In each merging read unshard (geo intersection, geo nearest, range read): when
  the responses before some shard's carry no error and that shard's response carries
  the error \<open>err\<close>, the composite response carries \<open>err\<close> as its payload, whatever the
  later shards returned.
\<close>

theorem first_error_wins:
  "(list_all intersecting_ok pre1
      \<and> response e1 = Intersecting_geo_read_response (Inl err1)
    \<longrightarrow> unshard_intersecting_geo_read (pre1 @ e1 # post1)
          = Inr (Intersecting_geo_read_response (Inl err1)))
   \<and> (list_all nearest_ok pre2
      \<and> response e2 = Nearest_geo_read_response (Inl err2)
    \<longrightarrow> unshard_nearest_geo_read query (pre2 @ e2 # post2)
          = Inr (Nearest_geo_read_response (Inl err2)))
   \<and> (list_all rget_ok pre3
      \<and> response e3 = Rget_read_response resp3 \<and> result resp3 = Inl err3
    \<longrightarrow> (\<exists>out. unshard_rget_read mks accumulate rg (pre3 @ e3 # post3)
                 = Inr (Rget_read_response out)
               \<and> result out = Inl err3))"
proof (intro conjI impI)
  assume "list_all intersecting_ok pre1
      \<and> response e1 = Intersecting_geo_read_response (Inl err1)"
  then show "unshard_intersecting_geo_read (pre1 @ e1 # post1)
          = Inr (Intersecting_geo_read_response (Inl err1))"
    by (simp add: unshard_intersecting_geo_read_def intersecting_geo_loop_error)
next
  assume "list_all nearest_ok pre2
      \<and> response e2 = Nearest_geo_read_response (Inl err2)"
  then show "unshard_nearest_geo_read query (pre2 @ e2 # post2)
          = Inr (Nearest_geo_read_response (Inl err2))"
    by (simp add: unshard_nearest_geo_read_def nearest_collect_error)
next
  assume a: "list_all rget_ok pre3
      \<and> response e3 = Rget_read_response resp3 \<and> result resp3 = Inl err3"
  then obtain tr' where
    "rget_scan (rg_sorting rg) (pre3 @ e3 # post3) False None [] = Inr (Inl (tr', err3))"
    using rget_scan_error [of pre3 e3 resp3 err3 "rg_sorting rg" post3 False None "[]"]
    by blast
  then show "\<exists>out. unshard_rget_read mks accumulate rg (pre3 @ e3 # post3)
                 = Inr (Rget_read_response out) \<and> result out = Inl err3"
    by (simp add: unshard_rget_read_def)
qed

theorem first_error_wins_witness:
  "unshard_intersecting_geo_read
     [example_geo_response (Inr [1, 2]), example_geo_response (Inl ''first''),
      example_geo_response (Inl ''second'')]
   = Inr (Intersecting_geo_read_response (Inl ''first''))
   \<and> unshard_nearest_geo_read (example_nearest_read 10)
     [example_nearest_response (Inr [(1, 5)]), example_nearest_response (Inl ''first''),
      example_nearest_response (Inl ''second'')]
   = Inr (Nearest_geo_read_response (Inl ''first''))
   \<and> (\<exists>out. unshard_rget_read 250 (\<lambda>rg k results. Inr (concat results))
              (example_rget_read ASCENDING)
              [example_rget_response True [109], example_rget_error ''first'',
               example_rget_error ''second'']
            = Inr (Rget_read_response out)
          \<and> result out = Inl ''first'')"
proof -
  have h1: "list_all intersecting_ok [example_geo_response (Inr [1, 2])]
          \<and> response (example_geo_response (Inl ''first''))
              = Intersecting_geo_read_response (Inl ''first'')"
    by (simp add: intersecting_ok_def example_geo_response_def)
  have h2: "list_all nearest_ok [example_nearest_response (Inr [(1, 5)])]
          \<and> response (example_nearest_response (Inl ''first''))
              = Nearest_geo_read_response (Inl ''first'')"
    by (simp add: nearest_ok_def example_nearest_response_def)
  have h3: "list_all rget_ok [example_rget_response True [109]]
          \<and> response (example_rget_error ''first'')
              = Rget_read_response
                  \<lparr>result = Inl ''first'', key_range = inner_range example_region,
                   truncated = False, last_key = []\<rparr>
          \<and> result \<lparr>result = (Inl ''first'' :: string + nat list),
                     key_range = inner_range example_region,
                     truncated = False, last_key = []\<rparr> = Inl ''first''"
    by (simp add: rget_ok_def example_rget_response_def example_rget_error_def)
  from first_error_wins [of "[example_geo_response (Inr [1, 2])]"
      "example_geo_response (Inl ''first'')" "''first''"
      "[example_geo_response (Inl ''second'')]"
      "[example_nearest_response (Inr [(1, 5)])]"
      "example_nearest_response (Inl ''first'')" "''first''"
      "example_nearest_read 10" "[example_nearest_response (Inl ''second'')]"
      "[example_rget_response True [109]]" "example_rget_error ''first''"
      "\<lparr>result = Inl ''first'', key_range = inner_range example_region,
        truncated = False, last_key = []\<rparr>" "''first''"
      250 "\<lambda>rg k results. Inr (concat results)" "example_rget_read ASCENDING"
      "[example_rget_error ''second'']"] h1 h2 h3
  show ?thesis by simp
qed

section \<open>Properties of the region of a batched write\<close>

lemma Min_insert_min:
  fixes a b :: "'a :: linorder"
  assumes "finite S"
  shows "Min (insert (if a < b then a else b) S) = Min (insert b (insert a S))"
proof -
  have "Min (insert (min a b) S) = Min (insert b (insert a S))"
  proof (cases "S = {}")
    case True
    then show ?thesis by (simp add: min.commute)
  next
    case False
    with assms show ?thesis by (simp add: min.assoc min.commute min.left_commute)
  qed
  moreover have "(if a < b then a else b) = min a b" by (auto simp: min_def)
  ultimately show ?thesis by simp
qed

lemma Max_insert_max:
  fixes a b :: "'a :: linorder"
  assumes "finite S"
  shows "Max (insert (if a > b then a else b) S) = Max (insert b (insert a S))"
proof -
  have "Max (insert (max a b) S) = Max (insert b (insert a S))"
  proof (cases "S = {}")
    case True
    then show ?thesis by (simp add: max.commute)
  next
    case False
    with assms show ?thesis by (simp add: max.assoc max.commute max.left_commute)
  qed
  moreover have "(if a > b then a else b) = max a b" by (auto simp: max_def)
  ultimately show ?thesis by simp
qed

lemma fold_region_from_keys_step:
  "fold (region_from_keys_step hasher) keys (mn, mx, mnh, mxh) =
     (Min (insert mn (set keys)), Max (insert mx (set keys)),
      Min (insert mnh (hasher ` set keys)), Max (insert mxh (hasher ` set keys)))"
proof (induction keys arbitrary: mn mx mnh mxh)
  case Nil
  show ?case by simp
next
  case (Cons k keys)
  have step: "region_from_keys_step hasher k (mn, mx, mnh, mxh) =
      (if k < mn then k else mn, if k > mx then k else mx,
       if hasher k < mnh then hasher k else mnh, if hasher k > mxh then hasher k else mxh)"
    by (simp add: region_from_keys_step_def Let_def)
  have "fold (region_from_keys_step hasher) (k # keys) (mn, mx, mnh, mxh) =
      fold (region_from_keys_step hasher) keys
        (region_from_keys_step hasher k (mn, mx, mnh, mxh))"
    by simp
  also have "\<dots> =
     (Min (insert mn (insert k (set keys))), Max (insert mx (insert k (set keys))),
      Min (insert mnh (insert (hasher k) (hasher ` set keys))),
      Max (insert mxh (insert (hasher k) (hasher ` set keys))))"
    unfolding step Cons.IH
    by (simp only: Min_insert_min Max_insert_max finite_set finite_imageI)
  finally show ?case by simp
qed

lemma valid_key_le_max: "valid_key mks k \<Longrightarrow> k \<le> store_key_max mks"
  unfolding valid_key_def store_key_max_def
proof (induction k arbitrary: mks)
  case Nil
  show ?case by simp
next
  case (Cons b k)
  then obtain n where n: "mks = Suc n" by (cases mks) auto
  have "b \<le> - 1" by (rule word_n1_ge)
  moreover have "(- 1 :: 8 word) = 255" by simp
  ultimately have "b \<le> 255" by (simp only:)
  then have "b < 255 \<or> b = 255" by (simp only: le_less)
  with Cons n show ?case by auto
qed

lemma word64_no_wrap:
  fixes a b :: "64 word"
  assumes "a < b"
  shows "a < a + 1"
proof -
  have "a \<noteq> - 1"
  proof
    assume "a = - 1"
    with assms have "- 1 < b" by simp
    then show False by (simp add: word_order.not_eq_extremum [symmetric]) 
  qed
  then have "\<not> a + 1 \<le> a" by (simp add: inc_less_eq_self_iff_eq)
  then show ?thesis by simp
qed

lemma region_from_keys_bounding:
  assumes ne: "keys \<noteq> []"
    and valid: "\<forall>k\<in>set keys. valid_key mks k"
    and hashes: "\<forall>k\<in>set keys. hasher k < hash_size"
  shows "region_from_keys hasher hash_size mks keys = bounding_region hasher keys"
proof -
  have fin: "finite (set keys)" "set keys \<noteq> {}" using ne by simp_all
  have "\<forall>k\<in>set keys. k \<le> store_key_max mks"
    using valid by (simp add: valid_key_le_max)
  moreover have "Min (set keys) \<in> set keys" using fin by (rule Min_in)
  ultimately have "Min (set keys) \<le> store_key_max mks" by blast
  moreover have "Min (insert (store_key_max mks) (set keys))
                   = min (store_key_max mks) (Min (set keys))"
    using fin by (rule Min_insert)
  ultimately have mn: "Min (insert (store_key_max mks) (set keys)) = Min (set keys)"
    by simp
  have "Max (insert store_key_min (set keys)) = max store_key_min (Max (set keys))"
    using fin by (rule Max_insert)
  then have mx: "Max (insert store_key_min (set keys)) = Max (set keys)"
    by (simp add: store_key_min_def max_def)
  have finh: "finite (hasher ` set keys)" "hasher ` set keys \<noteq> {}" using ne by simp_all
  have "\<forall>h\<in>hasher ` set keys. h \<le> hash_size - 1"
    using hashes by (auto intro: less_imp_less_eq_dec)
  moreover have "Min (hasher ` set keys) \<in> hasher ` set keys" using finh by (rule Min_in)
  ultimately have "Min (hasher ` set keys) \<le> hash_size - 1" by blast
  moreover have "Min (insert (hash_size - 1) (hasher ` set keys))
                   = min (hash_size - 1) (Min (hasher ` set keys))"
    using finh by (rule Min_insert)
  ultimately have mnh:
    "Min (insert (hash_size - 1) (hasher ` set keys)) = Min (hasher ` set keys)"
    by simp
  have "Max (insert 0 (hasher ` set keys)) = max 0 (Max (hasher ` set keys))"
    using finh by (rule Max_insert)
  then have mxh: "Max (insert 0 (hasher ` set keys)) = Max (hasher ` set keys)"
    by (simp add: max_def)
  show ?thesis
    using ne by (simp add: region_from_keys_def fold_region_from_keys_step mn mx mnh mxh
        bounding_region_def del: Min_insert Max_insert)
qed

text \<open>
  C7. For a non-empty list of keys (each of at most the maximal key length, each with a
  hash below the hash size) \<open>region_from_keys\<close> is the bounding region: hash interval
  from the least hash to the greatest hash plus one (which does not wrap), key range
  closed on both sides from the least key to the greatest. It is the region of a
  \<open>batched_replace\<close> of these keys, and of a \<open>batched_insert\<close> for the primary keys of
  its rows.
\<close>

theorem batched_write_region:
  fixes env :: "('bs, 'row) shard_env" and x :: 'x
  assumes "keys \<noteq> []"
    and "\<forall>k\<in>set keys. valid_key mks k \<and> hash_region_hasher env k < hash_size"
    and "keys' = map (print_primary env pkey) inserts"
    and "inserts \<noteq> []"
    and "\<forall>k\<in>set keys'. valid_key mks k \<and> hash_region_hasher env k < hash_size"
  shows "region_from_keys (hash_region_hasher env) hash_size mks keys
           = bounding_region (hash_region_hasher env) keys
       \<and> Max (hash_region_hasher env ` set keys) < Max (hash_region_hasher env ` set keys) + 1
       \<and> rdb_w_get_region env hash_size mks (Batched_replace keys x)
           = bounding_region (hash_region_hasher env) keys
       \<and> rdb_w_get_region env hash_size mks (Batched_insert inserts pkey x)
           = bounding_region (hash_region_hasher env) keys'"
proof -
  have r: "region_from_keys (hash_region_hasher env) hash_size mks keys
           = bounding_region (hash_region_hasher env) keys"
    using assms(1,2) by (intro region_from_keys_bounding) auto
  have "keys' \<noteq> []" using assms(3,4) by simp
  then have r': "region_from_keys (hash_region_hasher env) hash_size mks keys'
           = bounding_region (hash_region_hasher env) keys'"
    using assms(5) by (intro region_from_keys_bounding) auto
  have "Max (hash_region_hasher env ` set keys) \<in> hash_region_hasher env ` set keys"
    using assms(1) by (intro Max_in) simp_all
  then have "Max (hash_region_hasher env ` set keys) < hash_size"
    using assms(2) by auto
  then have "Max (hash_region_hasher env ` set keys)
               < Max (hash_region_hasher env ` set keys) + 1"
    by (rule word64_no_wrap)
  with r r' show ?thesis by (simp add: assms(3))
qed

theorem batched_write_region_witness:
  "rdb_w_get_region example_env (2 ^ 63) 250
     (Batched_replace [[3], []] (0 :: nat))
   = \<lparr>beg = 2, hend = 8,
      inner_range = \<lparr>left_bound = bound_closed, left_key = [],
                     right_bound = bound_closed, right_key = [3]\<rparr>\<rparr>
   \<and> rdb_w_get_region example_env (2 ^ 63) 250
     (Batched_insert [5, 4] ''id'' (0 :: nat))
   = \<lparr>beg = 7, hend = 8,
      inner_range = \<lparr>left_bound = bound_closed, left_key = [4],
                     right_bound = bound_closed, right_key = [5]\<rparr>\<rparr>"
proof -
  have h: "hash_region_hasher example_env = (\<lambda>k. if k = [] then 2 else 7)"
    by (simp add: example_env_def)
  have p: "map (print_primary example_env ''id'') [5, 4] = [[5], [4]]"
    by (simp add: example_env_def)
  have h1: "[[3], [] :: store_key_t] \<noteq> []" by simp
  have h2: "\<forall>k\<in>set [[3], [] :: store_key_t].
              valid_key 250 k \<and> hash_region_hasher example_env k < 2 ^ 63"
    by (simp add: valid_key_def h)
  have h3: "[[5], [4]] = map (print_primary example_env ''id'') [5, 4]"
    by (simp add: example_env_def)
  have h4: "[5, 4 :: nat] \<noteq> []" by simp
  have h5: "\<forall>k\<in>set [[5], [4] :: store_key_t].
              valid_key 250 k \<and> hash_region_hasher example_env k < 2 ^ 63"
    by (simp add: valid_key_def h)
  from batched_write_region [OF h1 h2 h3 h4 h5, of "0 :: nat"]
  show ?thesis by (simp add: bounding_region_def h)
qed

section \<open>Properties of the distribution unshard\<close>

declare distribution_groups.simps [simp del]

lemma absorb_snd_length:
  "length (snd (absorb combine i it nxt)) = length nxt - (combine - i)"
  by (induction nxt arbitrary: i it) auto

lemma scale_down_loop_length:
  "length (scale_down_loop combine kcs) * (combine + 1) \<le> length kcs + combine"
proof (induction combine kcs rule: scale_down_loop.induct)
  case (1 combine)
  show ?case by simp
next
  case (2 combine it nxt)
  let ?rest = "snd (absorb combine 0 it nxt)"
  let ?l = "length (scale_down_loop combine ?rest)"
  have rest: "length ?rest = length nxt - combine"
    using absorb_snd_length [of combine 0 it nxt] by simp
  have split: "(1 + ?l) * (combine + 1) = (combine + 1) + ?l * (combine + 1)"
    by (simp add: algebra_simps)
  have "(1 + ?l) * (combine + 1) \<le> length (it # nxt) + combine"
  proof (cases "?rest = []")
    case True
    then have "?l = 0" by simp
    then show ?thesis by simp
  next
    case False
    then have "combine \<le> length nxt" using rest by (cases "combine \<le> length nxt") auto
    moreover have "?l * (combine + 1) \<le> length ?rest + combine" by (rule "2.IH")
    ultimately show ?thesis unfolding split rest by simp
  qed
  then show ?case by simp
qed

lemma scale_down_loop_within_limit:
  assumes "0 < limit"
  shows "length (scale_down_loop (length kcs div limit) kcs) \<le> limit"
proof (rule ccontr)
  let ?c = "length kcs div limit"
  let ?l = "length (scale_down_loop ?c kcs)"
  assume "\<not> ?l \<le> limit"
  then have "limit + 1 \<le> ?l" by simp
  then have "(limit + 1) * (?c + 1) \<le> ?l * (?c + 1)" by (rule mult_le_mono1)
  also have "\<dots> \<le> length kcs + ?c" by (rule scale_down_loop_length)
  finally have a: "limit * ?c + limit + ?c + 1 \<le> length kcs + ?c"
    by (simp add: algebra_simps)
  have "length kcs < limit + limit * ?c" using assms by (rule dividend_less_times_div)
  with a show False by simp
qed

lemma distribution_extract_ok:
  assumes "list_all distribution_ok responses"
  shows "\<exists>results. distribution_extract responses = Inr results
           \<and> map (\<lambda>d. total_keys (key_counts d)) results
               = map response_total_keys responses"
  using assms
proof (induction responses)
  case Nil
  show ?case by simp
next
  case (Cons r rs)
  from Cons.prems have okr: "distribution_ok r" and rs: "list_all distribution_ok rs"
    by simp_all
  from okr obtain res where r: "response r = Distribution_read_response res"
    by (cases "response r") (simp_all add: distribution_ok_def)
  from Cons.IH [OF rs] r show ?case by (auto simp: response_total_keys_def)
qed

lemma find_largest_bound:
  assumes "ls \<le> t"
    and "t + sum_list (map (\<lambda>d. total_keys (key_counts d)) (drop i results)) < 2 ^ 64"
  shows "fst (snd (snd (find_largest results rng i li ls t)))
           \<le> snd (snd (snd (find_largest results rng i li ls t)))"
  using assms
proof (induction results rng i li ls t rule: find_largest.induct)
  case (1 results rng i li ls t)
  show ?case
  proof (cases "i < length results \<and> inner_range (region (results ! i)) = rng")
    case True
    let ?tmp = "total_keys (key_counts (results ! i))"
    from True have d: "drop i results = results ! i # drop (Suc i) results"
      by (simp add: Cons_nth_drop_Suc)
    from "1.prems"(2) have b: "t + ?tmp + sum_list (map (\<lambda>d. total_keys (key_counts d))
        (drop (Suc i) results)) < 2 ^ 64"
      unfolding d by simp
    then have m: "(t + ?tmp) mod 2 ^ 64 = t + ?tmp" by simp
    have "fst (snd (snd (find_largest results rng (i + 1)
             (if ?tmp > ls then i else li) (if ?tmp > ls then ?tmp else ls)
             ((t + ?tmp) mod 2 ^ 64))))
       \<le> snd (snd (snd (find_largest results rng (i + 1)
             (if ?tmp > ls then i else li) (if ?tmp > ls then ?tmp else ls)
             ((t + ?tmp) mod 2 ^ 64))))"
    proof (rule "1.IH" [OF True refl])
      show "(if ?tmp > ls then ?tmp else ls) \<le> (t + ?tmp) mod 2 ^ 64"
        unfolding m using "1.prems"(1) by simp
      show "(t + ?tmp) mod 2 ^ 64
          + sum_list (map (\<lambda>d. total_keys (key_counts d)) (drop (i + 1) results)) < 2 ^ 64"
        unfolding m using b by simp
    qed
    then show ?thesis using True by (subst (1 2) find_largest.simps) (simp add: Let_def)
  next
    case False
    then show ?thesis using "1.prems"(1) by (subst (1 2) find_largest.simps) auto
  qed
qed

lemma sum_list_drop_le:
  fixes xs :: "nat list"
  shows "sum_list (drop i xs) \<le> sum_list xs"
proof -
  have "sum_list xs = sum_list (take i xs) + sum_list (drop i xs)"
    by (metis append_take_drop_id sum_list_append)
  then show ?thesis by simp
qed

lemma distribution_groups_ok:
  assumes "\<forall>t l. 0 < l \<and> l \<le> t \<longrightarrow> scale_factor_ge_one fe t l"
    and "sum_list (map (\<lambda>d. total_keys (key_counts d)) results) < 2 ^ 64"
  shows "\<exists>res'. distribution_groups fe results i res = Inr res'"
  using assms
proof (induction fe results i res rule: distribution_groups.induct)
  case (1 fe results i res)
  show ?case
  proof (cases "i < length results")
    case False
    then show ?thesis by (subst distribution_groups.simps) simp
  next
    case True
    let ?st = "find_largest results (inner_range (region (results ! i))) i i 0 0"
    have "sum_list (drop i (map (\<lambda>d. total_keys (key_counts d)) results))
            \<le> sum_list (map (\<lambda>d. total_keys (key_counts d)) results)"
      by (rule sum_list_drop_le)
    with "1.prems"(2)
    have "0 + sum_list (map (\<lambda>d. total_keys (key_counts d)) (drop i results)) < 2 ^ 64"
      by (simp add: drop_map)
    then have le: "fst (snd (snd ?st)) \<le> snd (snd (snd ?st))"
      by (intro find_largest_bound) simp_all
    show ?thesis
    proof (cases "fst (snd (snd ?st)) > 0")
      case pos: True
      with le "1.prems"(1)
      have ok: "scale_factor_ge_one fe (snd (snd (snd ?st))) (fst (snd (snd ?st)))"
        by blast
      from "1.IH"(1) [OF True refl refl refl refl refl pos _ "1.prems"] ok
      show ?thesis using True pos ok
        by (subst distribution_groups.simps) (simp add: Let_def)
    next
      case zero: False
      from "1.IH"(2) [OF True refl refl refl refl refl zero "1.prems"]
      show ?thesis using True zero
        by (subst distribution_groups.simps) (simp add: Let_def)
    qed
  qed
qed

lemma sum_list_map_mset_cong:
  fixes f :: "'a \<Rightarrow> nat"
  assumes "mset xs = mset ys"
  shows "sum_list (map f xs) = sum_list (map f ys)"
proof -
  have "sum_list (map f xs) = sum_mset (image_mset f (mset xs))"
    by (simp add: sum_mset_sum_list [symmetric])
  also have "\<dots> = sum_mset (image_mset f (mset ys))" by (simp add: assms)
  also have "\<dots> = sum_list (map f ys)" by (simp add: sum_mset_sum_list [symmetric])
  finally show ?thesis .
qed

lemma distribution_unshard_returns:
  assumes "responses \<noteq> []"
    and "list_all distribution_ok responses"
    and "sum_list (map response_total_keys responses) < 2 ^ 64"
    and "\<forall>less xs. mset (std_sort less xs) = mset xs"
    and "\<forall>t l. 0 < l \<and> l \<le> t \<longrightarrow> scale_factor_ge_one fe t l"
  shows "\<exists>res. unshard_distribution_read fe std_sort key_range_less region_less dg responses
                 = Inr (Distribution_read_response res)"
proof -
  from distribution_extract_ok [OF assms(2)] obtain results where
    ex: "distribution_extract responses = Inr results"
    and tk: "map (\<lambda>d. total_keys (key_counts d)) results
               = map response_total_keys responses"
    by blast
  let ?sorted = "std_sort (distribution_read_response_less key_range_less region_less) results"
  have "mset ?sorted = mset results" using assms(4) by blast
  then have "sum_list (map (\<lambda>d. total_keys (key_counts d)) ?sorted)
           = sum_list (map (\<lambda>d. total_keys (key_counts d)) results)"
    by (rule sum_list_map_mset_cong)
  with tk assms(3) have "sum_list (map (\<lambda>d. total_keys (key_counts d)) ?sorted) < 2 ^ 64"
    by simp
  from distribution_groups_ok [OF assms(5) this, of 0 "[]"] obtain kc where
    kc: "distribution_groups fe ?sorted 0 [] = Inr kc"
    by blast
  show ?thesis using assms(1) ex kc
    by (simp add: unshard_distribution_read_def scale_down_distribution_def)
qed

text \<open>
  C3, as the code has it. Every response the unshard returns is a histogram made from
  the merged one (\<open>kc\<close>, the result of the loop over the sorted responses): under a
  positive \<open>result_limit\<close> it has at most \<open>result_limit\<close> entries, being the merged
  histogram scaled down when that is larger and the merged histogram itself
  otherwise; under \<open>result_limit = 0\<close> it is the merged histogram, not scaled down,
  whatever its size. The unshard returns a response when the sequence of responses is
  not empty and holds distribution responses only, provided the totals of the key
  counts fit 64 bits, the sort permutes its input and the floating-point test
  \<open>scale_factor >= 1.0\<close> holds whenever the largest size is positive and not above the
  total (as it does for correctly rounded doubles).
\<close>

theorem distribution_unshard_size:
  "(\<forall>v. unshard_distribution_read fe std_sort key_range_less region_less dg responses = Inr v
      \<longrightarrow> (\<exists>res results kc.
             v = Distribution_read_response res
           \<and> distribution_extract responses = Inr results
           \<and> distribution_groups fe
                (std_sort (distribution_read_response_less key_range_less region_less)
                   results) 0 [] = Inr kc
           \<and> (if 0 < result_limit dg
              then length (key_counts res) \<le> result_limit dg
                 \<and> key_counts res
                     = (if result_limit dg < length kc
                        then scale_down_loop (length kc div result_limit dg) kc else kc)
              else key_counts res = kc)))
   \<and> (responses \<noteq> [] \<and> list_all distribution_ok responses
        \<and> sum_list (map response_total_keys responses) < 2 ^ 64
        \<and> (\<forall>less xs. mset (std_sort less xs) = mset xs)
        \<and> (\<forall>t l. 0 < l \<and> l \<le> t \<longrightarrow> scale_factor_ge_one fe t l)
      \<longrightarrow> (\<exists>res. unshard_distribution_read fe std_sort key_range_less region_less
                    dg responses
                  = Inr (Distribution_read_response res)))"
proof (intro conjI allI impI)
  fix v
  assume v: "unshard_distribution_read fe std_sort key_range_less region_less dg responses
               = Inr v"
  have lim: "0 < result_limit dg \<Longrightarrow>
      length (scale_down_loop (length kc div result_limit dg) kc) \<le> result_limit dg"
    for kc
    by (rule scale_down_loop_within_limit)
  from v show "\<exists>res results kc.
             v = Distribution_read_response res
           \<and> distribution_extract responses = Inr results
           \<and> distribution_groups fe
                (std_sort (distribution_read_response_less key_range_less region_less)
                   results) 0 [] = Inr kc
           \<and> (if 0 < result_limit dg
              then length (key_counts res) \<le> result_limit dg
                 \<and> key_counts res
                     = (if result_limit dg < length kc
                        then scale_down_loop (length kc div result_limit dg) kc else kc)
              else key_counts res = kc)"
    by (auto simp: unshard_distribution_read_def scale_down_distribution_def lim
        split: if_splits sum.splits)
next
  assume a: "responses \<noteq> [] \<and> list_all distribution_ok responses
            \<and> sum_list (map response_total_keys responses) < 2 ^ 64
            \<and> (\<forall>less xs. mset (std_sort less xs) = mset xs)
            \<and> (\<forall>t l. 0 < l \<and> l \<le> t \<longrightarrow> scale_factor_ge_one fe t l)"
  then have a1: "responses \<noteq> []" and a2: "list_all distribution_ok responses"
    and a3: "sum_list (map response_total_keys responses) < 2 ^ 64"
    and a4: "\<forall>less xs. mset (std_sort less xs) = mset xs"
    and a5: "\<forall>t l. 0 < l \<and> l \<le> t \<longrightarrow> scale_factor_ge_one fe t l"
    by blast+
  from distribution_unshard_returns [OF a1 a2 a3 a4 a5, of key_range_less region_less dg]
  show "\<exists>res. unshard_distribution_read fe std_sort key_range_less region_less
                        dg responses
                      = Inr (Distribution_read_response res)"
    by blast
qed

lemma example_find_largest:
  "find_largest [\<lparr>region = example_region, key_counts = kc\<rparr>]
     (inner_range example_region) 0 0 0 0
   = (1, 0, if 0 < total_keys kc then total_keys kc else 0, total_keys kc mod 2 ^ 64)"
  by (subst find_largest.simps, subst find_largest.simps) (simp add: Let_def)

theorem distribution_unshard_size_witness:
  "(\<exists>res. unshard_distribution_read example_float_env (\<lambda>less xs. xs)
            (\<lambda>a b. False) (\<lambda>a b. False) (example_distribution_read 2)
            [example_distribution_response [([1], 1), ([2], 2), ([3], 3)],
             example_distribution_response [([1], 1)]]
          = Inr (Distribution_read_response res)
        \<and> length (key_counts res) \<le> 2)
   \<and> unshard_distribution_read example_float_env (\<lambda>less xs. xs)
        (\<lambda>a b. False) (\<lambda>a b. False) (example_distribution_read 2)
        [example_distribution_response [([1], 1), ([2], 2), ([3], 3)],
         example_distribution_response [([1], 1)]]
      = Inr (Distribution_read_response
               \<lparr>region = region_t_default, key_counts = [([1], 3), ([3], 3)]\<rparr>)
   \<and> unshard_distribution_read example_float_env (\<lambda>less xs. xs)
        (\<lambda>a b. False) (\<lambda>a b. False) (example_distribution_read 0)
        [example_distribution_response [([1], 1), ([2], 2), ([3], 3)],
         example_distribution_response [([1], 1)]]
      = Inr (Distribution_read_response
               \<lparr>region = region_t_default,
                key_counts = [([1], 1), ([2], 2), ([3], 3)]\<rparr>)"
proof -
  let ?rs = "[example_distribution_response [([1], 1), ([2], 2), ([3], 3)],
              example_distribution_response [([1], 1)]]"
  let ?ds = "[\<lparr>region = example_region, key_counts = [([1], 1), ([2], 2), ([3], 3)]\<rparr>,
              \<lparr>region = example_region, key_counts = [([1], 1)]\<rparr>]"
  have tk: "total_keys [([1], 1), ([2], 2), ([3], 3)] = 6" "total_keys [([1], 1)] = 1"
    by (simp_all add: total_keys_def)
  have h1: "?rs \<noteq> []" by simp
  have h2: "list_all distribution_ok ?rs"
    by (simp add: distribution_ok_def example_distribution_response_def)
  have h3: "sum_list (map response_total_keys ?rs) < 2 ^ 64"
    by (simp add: response_total_keys_def example_distribution_response_def tk)
  have h5: "\<forall>t l. 0 < l \<and> l \<le> t \<longrightarrow> scale_factor_ge_one example_float_env t l"
    by (simp add: example_float_env_def)
  have ex: "distribution_extract ?rs = Inr ?ds"
    by (simp add: example_distribution_response_def)
  have fl: "find_largest ?ds (inner_range example_region) 0 0 0 0 = (2, 0, 6, 7)"
    by (simp add: find_largest.simps tk Let_def)
  have dg: "distribution_groups example_float_env ?ds 0 []
      = Inr [([1], 1), ([2], 2), ([3], 3)]"
    by (subst distribution_groups.simps, subst distribution_groups.simps)
      (simp add: fl Let_def example_float_env_def map_insert_range_def)
  have sd: "scale_down_loop 1 [([1], 1), ([2], 2), ([3], 3)] = [([1], 3), ([3], 3)]"
    by simp
  have ret: "\<exists>res. unshard_distribution_read example_float_env (\<lambda>less xs. xs)
        (\<lambda>a b. False) (\<lambda>a b. False) (example_distribution_read n) ?rs
      = Inr (Distribution_read_response res)" for n
    using distribution_unshard_size [of example_float_env "\<lambda>less xs. xs"
      "\<lambda>a b. False" "\<lambda>a b. False" "example_distribution_read n" ?rs] h1 h2 h3 h5
    by simp
  have reg: "region res = region_t_default"
    if "unshard_distribution_read example_float_env (\<lambda>less xs. xs)
        (\<lambda>a b. False) (\<lambda>a b. False) (example_distribution_read n) ?rs
        = Inr (Distribution_read_response res)" for n res
    using that
    by (auto simp: unshard_distribution_read_def scale_down_distribution_def
        split: if_splits sum.splits)
  from ret [of 2] obtain r2 where r2: "unshard_distribution_read example_float_env
        (\<lambda>less xs. xs) (\<lambda>a b. False) (\<lambda>a b. False) (example_distribution_read 2) ?rs
      = Inr (Distribution_read_response r2)" by blast
  from distribution_unshard_size [of example_float_env "\<lambda>less xs. xs"
      "\<lambda>a b. False" "\<lambda>a b. False" "example_distribution_read 2" ?rs,
      THEN conjunct1, rule_format, OF r2]
  obtain res2 results2 kc2 where
    e2: "Distribution_read_response r2 = Distribution_read_response res2"
    and x2: "distribution_extract ?rs = Inr results2"
    and g2: "distribution_groups example_float_env results2 0 [] = Inr kc2"
    and c2: "if 0 < result_limit (example_distribution_read 2)
             then length (key_counts res2) \<le> result_limit (example_distribution_read 2)
                \<and> key_counts res2
                    = (if result_limit (example_distribution_read 2) < length kc2
                       then scale_down_loop
                              (length kc2 div result_limit (example_distribution_read 2)) kc2
                       else kc2)
             else key_counts res2 = kc2"
    by blast
  from x2 ex have "results2 = ?ds" by simp
  with g2 dg have kc2: "kc2 = [([1], 1), ([2], 2), ([3], 3)]" by simp
  from e2 have "res2 = r2" by simp
  with c2 have k2: "length (key_counts r2) \<le> 2" "key_counts r2 = [([1], 3), ([3], 3)]"
    by (simp_all add: kc2 example_distribution_read_def)
  with reg [OF r2] have "r2 = \<lparr>region = region_t_default, key_counts = [([1], 3), ([3], 3)]\<rparr>"
    by simp
  with r2 have second: "unshard_distribution_read example_float_env (\<lambda>less xs. xs)
        (\<lambda>a b. False) (\<lambda>a b. False) (example_distribution_read 2) ?rs
      = Inr (Distribution_read_response
               \<lparr>region = region_t_default, key_counts = [([1], 3), ([3], 3)]\<rparr>)"
    by simp
  from r2 k2(1) have first: "\<exists>res. unshard_distribution_read example_float_env
        (\<lambda>less xs. xs) (\<lambda>a b. False) (\<lambda>a b. False) (example_distribution_read 2) ?rs
          = Inr (Distribution_read_response res)
        \<and> length (key_counts res) \<le> 2"
    by blast
  from ret [of 0] obtain r0 where r0: "unshard_distribution_read example_float_env
        (\<lambda>less xs. xs) (\<lambda>a b. False) (\<lambda>a b. False) (example_distribution_read 0) ?rs
      = Inr (Distribution_read_response r0)" by blast
  from distribution_unshard_size [of example_float_env "\<lambda>less xs. xs"
      "\<lambda>a b. False" "\<lambda>a b. False" "example_distribution_read 0" ?rs,
      THEN conjunct1, rule_format, OF r0]
  obtain res0 results0 kc0 where
    e0: "Distribution_read_response r0 = Distribution_read_response res0"
    and x0: "distribution_extract ?rs = Inr results0"
    and g0: "distribution_groups example_float_env results0 0 [] = Inr kc0"
    and c0: "if 0 < result_limit (example_distribution_read 0)
             then length (key_counts res0) \<le> result_limit (example_distribution_read 0)
                \<and> key_counts res0
                    = (if result_limit (example_distribution_read 0) < length kc0
                       then scale_down_loop
                              (length kc0 div result_limit (example_distribution_read 0)) kc0
                       else kc0)
             else key_counts res0 = kc0"
    by blast
  from x0 ex have "results0 = ?ds" by simp
  with g0 dg have kc0: "kc0 = [([1], 1), ([2], 2), ([3], 3)]" by simp
  from e0 have "res0 = r0" by simp
  with c0 have "key_counts r0 = [([1], 1), ([2], 2), ([3], 3)]"
    by (simp add: kc0 example_distribution_read_def)
  with reg [OF r0] have "r0 = \<lparr>region = region_t_default,
                key_counts = [([1], 1), ([2], 2), ([3], 3)]\<rparr>"
    by simp
  with r0 have third: "unshard_distribution_read example_float_env (\<lambda>less xs. xs)
        (\<lambda>a b. False) (\<lambda>a b. False) (example_distribution_read 0) ?rs
      = Inr (Distribution_read_response
               \<lparr>region = region_t_default,
                key_counts = [([1], 1), ([2], 2), ([3], 3)]\<rparr>)"
    by simp
  from first second third show ?thesis by (intro conjI)
qed

text \<open>
  C3 as stated fails for \<open>result_limit = 0\<close>: the unshard scales down only under a
  positive limit, and a histogram of one entry is returned as it is.
\<close>

theorem distribution_unshard_size_counterexample:
  "unshard_distribution_read example_float_env (\<lambda>less xs. xs)
     (\<lambda>a b. False) (\<lambda>a b. False) (example_distribution_read 0)
     [example_distribution_response [([1], 1)]]
   = Inr (Distribution_read_response
            \<lparr>region = region_t_default, key_counts = [([1], 1)]\<rparr>)
   \<and> \<not> length [([1], 1) :: store_key_t \<times> int] \<le> result_limit (example_distribution_read 0)"
proof -
  have tk: "total_keys [([1], 1)] = 1" by (simp add: total_keys_def)
  have "distribution_groups example_float_env
          [\<lparr>region = example_region, key_counts = [([1], 1)]\<rparr>] 0 []
        = Inr [([1], 1)]"
    by (subst distribution_groups.simps, subst distribution_groups.simps)
      (simp add: example_find_largest tk Let_def example_float_env_def map_insert_range_def)
  then show ?thesis
    by (simp add: unshard_distribution_read_def example_distribution_response_def
        example_distribution_read_def)
qed

section \<open>Properties of the geo nearest unshard\<close>

declare nearest_loop.simps [simp del]

lemma fold_nearest_step:
  assumes "k \<le> length iters" "0 < k"
  shows "fst (fold (nearest_step iters) [0..<k] (length iters, - 1)) < k
       \<and> snd (fold (nearest_step iters) [0..<k] (length iters, - 1))
           = fst (hd (iters ! fst (fold (nearest_step iters) [0..<k] (length iters, - 1))))
       \<and> (\<forall>j<k. snd (fold (nearest_step iters) [0..<k] (length iters, - 1))
                   \<le> fst (hd (iters ! j)))
       \<and> (\<forall>j<fst (fold (nearest_step iters) [0..<k] (length iters, - 1)).
             snd (fold (nearest_step iters) [0..<k] (length iters, - 1))
               < fst (hd (iters ! j)))"
  using assms
proof (induction k)
  case 0
  then show ?case by simp
next
  case (Suc k)
  show ?case
  proof (cases "k = 0")
    case True
    then show ?thesis by (simp add: nearest_step_def)
  next
    case False
    let ?st = "fold (nearest_step iters) [0..<k] (length iters, - 1)"
    from False Suc.prems have pre: "k \<le> length iters" "0 < k" by simp_all
    from Suc.IH [OF pre] have IH: "fst ?st < k"
      "snd ?st = fst (hd (iters ! fst ?st))"
      "\<forall>j<k. snd ?st \<le> fst (hd (iters ! j))"
      "\<forall>j<fst ?st. snd ?st < fst (hd (iters ! j))"
      by blast+
    have st: "fold (nearest_step iters) [0..<Suc k] (length iters, - 1)
                = nearest_step iters k ?st"
      by simp
    obtain a b where ab: "?st = (a, b)" by (cases ?st) auto
    have ne: "a \<noteq> length iters" using IH(1) Suc.prems(1) by (simp add: ab)
    show ?thesis
    proof (cases "fst (hd (iters ! k)) < b")
      case True
      then have e: "nearest_step iters k ?st = (k, fst (hd (iters ! k)))"
        by (simp add: nearest_step_def ab)
      show ?thesis unfolding st e using True IH(3)
        by (auto simp: less_Suc_eq ab)
    next
      case False
      then have e: "nearest_step iters k ?st = ?st"
        using ne by (simp add: nearest_step_def ab)
      show ?thesis unfolding st e using False IH
        by (auto simp: less_Suc_eq ab)
    qed
  qed
qed

lemma find_nearest_min:
  assumes "iters \<noteq> []"
  shows "fst (find_nearest iters) < length iters
       \<and> (\<forall>j<length iters. fst (hd (iters ! fst (find_nearest iters))) \<le> fst (hd (iters ! j)))
       \<and> (\<forall>j<fst (find_nearest iters).
             fst (hd (iters ! fst (find_nearest iters))) < fst (hd (iters ! j)))"
  using fold_nearest_step [of "length iters" iters] assms
  unfolding find_nearest_def by auto

lemma filter_nth_ex:
  "idx < length (filter P xs) \<Longrightarrow>
     \<exists>j<length xs. P (xs ! j) \<and> filter P xs ! idx = xs ! j
        \<and> length (filter P (take j xs)) = idx"
proof (induction xs arbitrary: idx)
  case Nil
  then show ?case by simp
next
  case (Cons x xs)
  show ?case
  proof (cases "P x")
    case False
    with Cons.prems have "idx < length (filter P xs)" by simp
    from Cons.IH [OF this] obtain j where "j < length xs" "P (xs ! j)"
      "filter P xs ! idx = xs ! j" "length (filter P (take j xs)) = idx" by blast
    with False have "Suc j < length (x # xs) \<and> P ((x # xs) ! Suc j)
        \<and> filter P (x # xs) ! idx = (x # xs) ! Suc j
        \<and> length (filter P (take (Suc j) (x # xs))) = idx" by simp
    then show ?thesis by blast
  next
    case True
    show ?thesis
    proof (cases idx)
      case 0
      with True have "0 < length (x # xs) \<and> P ((x # xs) ! 0)
        \<and> filter P (x # xs) ! idx = (x # xs) ! 0
        \<and> length (filter P (take 0 (x # xs))) = idx" by simp
      then show ?thesis by blast
    next
      case (Suc i)
      with Cons.prems True have "i < length (filter P xs)" by simp
      from Cons.IH [OF this] obtain j where "j < length xs" "P (xs ! j)"
        "filter P xs ! i = xs ! j" "length (filter P (take j xs)) = i" by blast
      with True Suc have "Suc j < length (x # xs) \<and> P ((x # xs) ! Suc j)
        \<and> filter P (x # xs) ! idx = (x # xs) ! Suc j
        \<and> length (filter P (take (Suc j) (x # xs))) = idx" by simp
      then show ?thesis by blast
    qed
  qed
qed

lemma filter_split_at:
  assumes "j < length xs" "P (xs ! j)"
  shows "filter P xs = filter P (take j xs) @ xs ! j # filter P (drop (Suc j) xs)"
proof -
  have "xs = take j xs @ xs ! j # drop (Suc j) xs"
    using assms(1) by (rule id_take_nth_drop)
  then have "filter P xs = filter P (take j xs @ xs ! j # drop (Suc j) xs)" by simp
  then show ?thesis using assms(2) by simp
qed

lemma filter_pos_nth:
  assumes "j < length xs" "P (xs ! j)"
  shows "length (filter P (take j xs)) < length (filter P xs)
       \<and> filter P xs ! length (filter P (take j xs)) = xs ! j"
  by (subst (1 2) filter_split_at [where P = P, OF assms]) simp

lemma filter_pos_mono:
  assumes "j' < j" "j \<le> length xs" "P (xs ! j')"
  shows "length (filter P (take j' xs)) < length (filter P (take j xs))"
proof -
  have j': "j' < length (take j xs)" using assms(1,2) by simp
  have p: "P (take j xs ! j')" using assms(1,3) by simp
  have "take j' (take j xs) = take j' xs" using assms(1) by (simp add: min_def)
  with filter_pos_nth [where P = P, OF j' p] have "length (filter P (take j' xs))
      < length (filter P (take j xs))" by simp
  then show ?thesis .
qed

lemma filter_update:
  assumes "j < length xs" "P (xs ! j)"
  shows "filter P (xs[j := y]) =
           (if P y then (filter P xs)[length (filter P (take j xs)) := y]
            else erase_at (length (filter P (take j xs))) (filter P xs))"
proof -
  let ?A = "filter P (take j xs)" and ?B = "filter P (drop (Suc j) xs)"
  have s: "filter P xs = ?A @ xs ! j # ?B"
    by (rule filter_split_at [where P = P, OF assms])
  have u: "xs[j := y] = take j xs @ y # drop (Suc j) xs"
    using assms(1) by (rule upd_conv_take_nth_drop)
  have "filter P (xs[j := y]) = ?A @ (if P y then [y] else []) @ ?B"
    unfolding u by simp
  then show ?thesis unfolding s by (simp add: erase_at_def)
qed

lemma sorted_hd_le:
  assumes "sorted (map fst l)" "e \<in> set l"
  shows "fst (hd l) \<le> fst e"
proof (cases l)
  case Nil
  with assms(2) show ?thesis by simp
next
  case (Cons x xs)
  with assms show ?thesis by auto
qed

lemma select_rem:
  fixes rem :: "(real \<times> 'd) list list"
  assumes sorted: "\<forall>l\<in>set rem. sorted (map fst l)"
    and ne: "filter (\<lambda>l. l \<noteq> []) rem \<noteq> []"
  shows "\<exists>j<length rem. rem ! j \<noteq> []
           \<and> filter (\<lambda>l. l \<noteq> []) rem ! fst (find_nearest (filter (\<lambda>l. l \<noteq> []) rem)) = rem ! j
           \<and> length (filter (\<lambda>l. l \<noteq> []) (take j rem))
               = fst (find_nearest (filter (\<lambda>l. l \<noteq> []) rem))
           \<and> fst (find_nearest (filter (\<lambda>l. l \<noteq> []) rem)) < length (filter (\<lambda>l. l \<noteq> []) rem)
           \<and> (\<forall>j'<length rem. \<forall>e\<in>set (rem ! j').
                 fst (hd (rem ! j)) \<le> fst e \<and> (j' < j \<longrightarrow> fst (hd (rem ! j)) < fst e))"
proof -
  let ?P = "\<lambda>l :: (real \<times> 'd) list. l \<noteq> []"
  let ?iters = "filter ?P rem"
  let ?idx = "fst (find_nearest ?iters)"
  from find_nearest_min [OF ne] have idx: "?idx < length ?iters"
    and le: "\<forall>i<length ?iters. fst (hd (?iters ! ?idx)) \<le> fst (hd (?iters ! i))"
    and lt: "\<forall>i<?idx. fst (hd (?iters ! ?idx)) < fst (hd (?iters ! i))"
    by blast+
  from filter_nth_ex [OF idx] obtain j where j: "j < length rem" "rem ! j \<noteq> []"
    "?iters ! ?idx = rem ! j" "length (filter ?P (take j rem)) = ?idx"
    by blast
  have "fst (hd (rem ! j)) \<le> fst e \<and> (j' < j \<longrightarrow> fst (hd (rem ! j)) < fst e)"
    if j': "j' < length rem" and e: "e \<in> set (rem ! j')" for j' e
  proof -
    from e have nej: "rem ! j' \<noteq> []" by auto
    let ?i = "length (filter ?P (take j' rem))"
    from filter_pos_nth [of j' rem ?P, OF j' nej]
    have i: "?i < length ?iters" "?iters ! ?i = rem ! j'" by simp_all
    have "sorted (map fst (rem ! j'))" using sorted j' by simp
    then have h: "fst (hd (rem ! j')) \<le> fst e" using e by (rule sorted_hd_le)
    have "fst (hd (rem ! j)) \<le> fst (hd (rem ! j'))"
      using le i j(3) by (metis)
    with h have a: "fst (hd (rem ! j)) \<le> fst e" by simp
    have b: "fst (hd (rem ! j)) < fst e" if "j' < j"
    proof -
      from that j(1) nej have "?i < length (filter ?P (take j rem))"
        by (intro filter_pos_mono) simp_all
      then have "?i < ?idx" using j(4) by simp
      then have "fst (hd (rem ! j)) < fst (hd (rem ! j'))"
        using lt i j(3) by (metis)
      with h show ?thesis by simp
    qed
    from a b show ?thesis by blast
  qed
  with j idx show ?thesis by blast
qed

lemma update_tail_subset:
  assumes "j < length xss" "xss ! j = x # rest" "j' < length xss"
    and "e \<in> set (xss[j := rest] ! j')"
  shows "e \<in> set (xss ! j')"
proof (cases "j' = j")
  case True
  with assms show ?thesis by simp
next
  case False
  with assms show ?thesis by simp
qed

lemma stable_merge_prefixes: "stable_merge xss ys \<Longrightarrow> merge_of_prefixes xss ys"
  by (induction rule: stable_merge.induct) (auto intro: merge_of_prefixes.intros)

lemma stable_merge_member:
  "stable_merge xss ys \<Longrightarrow> e \<in> set ys \<Longrightarrow> \<exists>j<length xss. e \<in> set (xss ! j)"
proof (induction rule: stable_merge.induct)
  case (stable_nothing xss)
  then show ?case by simp
next
  case (stable_take j xss x rest ys)
  show ?case
  proof (cases "e = x")
    case True
    with stable_take.hyps(1,2) have "j < length xss \<and> e \<in> set (xss ! j)" by simp
    then show ?thesis by blast
  next
    case False
    with stable_take.prems have "e \<in> set ys" by simp
    from stable_take.IH [OF this] obtain j' where j': "j' < length xss"
      "e \<in> set (xss[j := rest] ! j')" by auto
    from update_tail_subset [OF stable_take.hyps(1,2) j'] j'(1) show ?thesis by blast
  qed
qed

lemma stable_merge_sorted: "stable_merge xss ys \<Longrightarrow> sorted (map fst ys)"
proof (induction rule: stable_merge.induct)
  case (stable_nothing xss)
  show ?case by simp
next
  case (stable_take j xss x rest ys)
  have "fst x \<le> fst e" if "e \<in> set ys" for e
  proof -
    from stable_merge_member [OF stable_take.hyps(4) that] obtain j' where
      j': "j' < length xss" "e \<in> set (xss[j := rest] ! j')" by auto
    from update_tail_subset [OF stable_take.hyps(1,2) j'] have "e \<in> set (xss ! j')" .
    with stable_take.hyps(3) j'(1) show ?thesis by blast
  qed
  with stable_take.IH show ?case by auto
qed

lemma stable_merge_ties:
  assumes "stable_merge xss ys"
    and "\<forall>j<length xss. \<forall>e\<in>set (xss ! j). shard_of (snd e) = j"
  shows "sorted_wrt (\<lambda>a b. fst a < fst b
            \<or> fst a = fst b \<and> shard_of (snd a) \<le> shard_of (snd b)) ys"
  using assms
proof (induction rule: stable_merge.induct)
  case (stable_nothing xss)
  show ?case by simp
next
  case (stable_take j xss x rest ys)
  have lab': "\<forall>j'<length (xss[j := rest]). \<forall>e\<in>set (xss[j := rest] ! j').
      shard_of (snd e) = j'"
  proof (intro allI impI ballI)
    fix j' e
    assume "j' < length (xss[j := rest])" "e \<in> set (xss[j := rest] ! j')"
    then have "j' < length xss" "e \<in> set (xss ! j')"
      using update_tail_subset [OF stable_take.hyps(1,2)] by simp_all
    with stable_take.prems show "shard_of (snd e) = j'" by blast
  qed
  have sx: "shard_of (snd x) = j"
    using stable_take.prems stable_take.hyps(1,2) by auto
  have "fst x < fst e \<or> fst x = fst e \<and> shard_of (snd x) \<le> shard_of (snd e)"
    if "e \<in> set ys" for e
  proof -
    from stable_merge_member [OF stable_take.hyps(4) that] obtain j' where
      j': "j' < length xss" "e \<in> set (xss[j := rest] ! j')" by auto
    from update_tail_subset [OF stable_take.hyps(1,2) j'] have e: "e \<in> set (xss ! j')" .
    with stable_take.prems j'(1) have se: "shard_of (snd e) = j'" by blast
    from stable_take.hyps(3) j'(1) e
    have "fst x \<le> fst e" "j' < j \<longrightarrow> fst x < fst e" by blast+
    then show ?thesis unfolding sx se by (cases "j' < j") auto
  qed
  with stable_take.IH [OF lab'] show ?case by simp
qed

lemma filter_nonempty_exists:
  assumes "0 < sum_list (map length rem)"
  shows "filter (\<lambda>l. l \<noteq> []) rem \<noteq> []"
proof
  assume "filter (\<lambda>l. l \<noteq> []) rem = []"
  then have "\<forall>l\<in>set rem. l = []" by (simp add: filter_empty_conv)
  then have "sum_list (map length rem) = 0" by (induction rem) auto
  with assms show False by simp
qed

lemma sum_length_update_tail:
  assumes "j < length rem" "rem ! j \<noteq> []"
  shows "Suc (sum_list (map length (rem[j := tl (rem ! j)]))) = sum_list (map length rem)"
proof -
  have m: "map length (rem[j := tl (rem ! j)]) = (map length rem)[j := length (tl (rem ! j))]"
    by (rule map_update)
  have "sum_list ((map length rem)[j := length (tl (rem ! j))])
      = sum_list (map length rem) + length (tl (rem ! j)) - (map length rem) ! j"
    using assms(1) by (intro sum_list_update) simp
  moreover have "(map length rem) ! j = Suc (length (tl (rem ! j)))"
    using assms by simp
  moreover have "(map length rem) ! j \<le> sum_list (map length rem)"
  proof -
    have "(map length rem) ! j \<in> set (map length rem)"
      using assms(1) by (intro nth_mem) simp
    then show ?thesis by (simp add: member_le_sum_list)
  qed
  ultimately show ?thesis unfolding m by simp
qed

lemma nearest_loop_stable:
  fixes rem :: "(real \<times> 'd) list list"
  assumes "\<forall>l\<in>set rem. sorted (map fst l)"
    and "total_size - length combined = n"
    and "n \<le> sum_list (map length rem)"
  shows "\<exists>out. nearest_loop total_size (filter (\<lambda>l. l \<noteq> []) rem) combined = Inr (combined @ out)
           \<and> length out = n \<and> stable_merge rem out"
  using assms
proof (induction n arbitrary: rem combined)
  case 0
  then have "\<not> length combined < total_size" by simp
  then have "nearest_loop total_size (filter (\<lambda>l. l \<noteq> []) rem) combined = Inr (combined @ [])"
    by (subst nearest_loop.simps) simp
  then show ?case using stable_nothing by blast
next
  case (Suc n)
  let ?P = "\<lambda>l :: (real \<times> 'd) list. l \<noteq> []"
  let ?iters = "filter ?P rem"
  let ?idx = "fst (find_nearest ?iters)"
  from Suc.prems(2) have lt: "length combined < total_size" by simp
  from Suc.prems(3) have "0 < sum_list (map length rem)" by simp
  then have ne: "?iters \<noteq> []" by (rule filter_nonempty_exists)
  from select_rem [OF Suc.prems(1) ne] obtain j where j: "j < length rem" "rem ! j \<noteq> []"
    "?iters ! ?idx = rem ! j" "length (filter ?P (take j rem)) = ?idx"
    "?idx < length ?iters"
    and least: "\<forall>j'<length rem. \<forall>e\<in>set (rem ! j').
       fst (hd (rem ! j)) \<le> fst e \<and> (j' < j \<longrightarrow> fst (hd (rem ! j)) < fst e)"
    by blast
  let ?x = "hd (rem ! j)"
  let ?rest = "tl (rem ! j)"
  let ?rem' = "rem[j := ?rest]"
  have xrest: "rem ! j = ?x # ?rest" using j(2) by simp
  have upd: "filter ?P ?rem' =
      (if ?rest = [] then erase_at ?idx ?iters else ?iters[?idx := ?rest])"
    using filter_update [where P = ?P, OF j(1,2), of ?rest] j(4) by simp
  have sorted': "\<forall>l\<in>set ?rem'. sorted (map fst l)"
  proof
    fix l assume "l \<in> set ?rem'"
    then have "l = ?rest \<or> l \<in> set rem"
      using set_update_subset_insert [of rem j ?rest] by auto
    moreover have "sorted (map fst ?rest)"
    proof -
      have "sorted (map fst (rem ! j))" using Suc.prems(1) j(1) by simp
      then have "sorted (tl (map fst (rem ! j)))" by (rule sorted_tl)
      then show ?thesis by (simp add: map_tl)
    qed
    ultimately show "sorted (map fst l)" using Suc.prems(1) by auto
  qed
  have n': "total_size - length (combined @ [?x]) = n" using Suc.prems(2) by simp
  have "n \<le> sum_list (map length ?rem')"
    using sum_length_update_tail [OF j(1,2)] Suc.prems(3) by simp
  from Suc.IH [OF sorted' n' this] obtain out' where out':
    "nearest_loop total_size (filter ?P ?rem') (combined @ [?x]) = Inr ((combined @ [?x]) @ out')"
    "length out' = n" "stable_merge ?rem' out'"
    by blast
  have "nearest_loop total_size ?iters combined
          = nearest_loop total_size (filter ?P ?rem') (combined @ [?x])"
    using lt j(5) by (subst nearest_loop.simps) (simp add: Let_def j(3) upd)
  with out'(1) have r: "nearest_loop total_size ?iters combined = Inr (combined @ ?x # out')"
    by simp
  have "stable_merge rem (?x # out')"
    using j(1) xrest least out'(3) by (rule stable_take)
  with r out'(2) have "nearest_loop total_size ?iters combined = Inr (combined @ ?x # out')
      \<and> length (?x # out') = Suc n \<and> stable_merge rem (?x # out')"
    by simp
  then show ?case by blast
qed

lemma nearest_collect_ok:
  assumes "list_all nearest_ok rs"
  shows "nearest_collect rs iters n =
           Inr (Inr (iters @ filter (\<lambda>l. l \<noteq> []) (map nearest_results rs),
                     n + sum_list (map length (map nearest_results rs))))"
  using assms
proof (induction rs arbitrary: iters n)
  case Nil
  show ?case by simp
next
  case (Cons r rs)
  from Cons.prems have okr: "nearest_ok r" and rs: "list_all nearest_ok rs"
    by simp_all
  from okr obtain roe where r1: "response r = Nearest_geo_read_response roe"
    by (cases "response r") (simp_all add: nearest_ok_def)
  from okr r1 obtain results where r2: "roe = Inr results"
    by (cases roe) (simp_all add: nearest_ok_def)
  have nr: "nearest_results r = results" by (simp add: nearest_results_def r1 r2)
  show ?case using Cons.IH [OF rs] r1 r2 nr by simp
qed

inductive_cases stable_merge_ConsE: "stable_merge xss (x # ys)"

lemma stable_merge_unique:
  assumes "stable_merge xss ys" and "stable_merge xss zs" and "length zs = length ys"
  shows "zs = ys"
  using assms
proof (induction arbitrary: zs rule: stable_merge.induct)
  case (stable_nothing xss)
  then show ?case by simp
next
  case (stable_take j xss x rest ys)
  from stable_take.prems(2) obtain z zs' where zs: "zs = z # zs'"
    by (cases zs) auto
  from stable_take.prems(1) [unfolded zs] obtain j2 rest2 where
    j2: "j2 < length xss" "xss ! j2 = z # rest2"
    and least2: "\<forall>j'<length xss. \<forall>e\<in>set (xss ! j').
        fst z \<le> fst e \<and> (j' < j2 \<longrightarrow> fst z < fst e)"
    and rest2: "stable_merge (xss[j2 := rest2]) zs'"
    by (rule stable_merge_ConsE)
  have xin: "x \<in> set (xss ! j)" using stable_take.hyps(2) by simp
  have zin: "z \<in> set (xss ! j2)" using j2(2) by simp
  have "j = j2"
  proof (rule ccontr)
    assume "j \<noteq> j2"
    then consider "j < j2" | "j2 < j" by linarith
    then show False
    proof cases
      case 1
      with least2 stable_take.hyps(1) xin have "fst z < fst x" by blast
      moreover from stable_take.hyps(3) j2(1) zin have "fst x \<le> fst z" by blast
      ultimately show False by simp
    next
      case 2
      with stable_take.hyps(3) j2(1) zin have "fst x < fst z" by blast
      moreover from least2 stable_take.hyps(1) xin have "fst z \<le> fst x" by blast
      ultimately show False by simp
    qed
  qed
  with j2(2) stable_take.hyps(2) have e: "z = x" "rest2 = rest" by simp_all
  from rest2 have "stable_merge (xss[j := rest]) zs'" using e \<open>j = j2\<close> by simp
  moreover have "length zs' = length ys" using stable_take.prems(2) zs by simp
  ultimately have "zs' = ys" by (rule stable_take.IH)
  with zs e show ?case by simp
qed

text \<open>
  C5. When every per-shard response is a geo nearest response without an error whose
  result list is sorted by ascending distance, the unshard returns a result list of
  length min(sum of the input lengths, \<open>max_results\<close>) that is sorted by ascending
  distance and interleaves prefixes of the input lists, each in its own order. Ties
  go to the lower shard: whenever the payloads tell their shard (\<open>shard_of\<close>), the
  result is ordered by distance and, at equal distance, by shard index; and, whatever
  the payloads are, every element taken is at no greater distance than any element
  then left and at a smaller one than those left in the shards before its own
  (\<open>stable_merge\<close>), which no other list of the same length satisfies: a tie at the
  cut is decided for the lower shard too.
\<close>

theorem nearest_unshard_merge:
  assumes "list_all nearest_ok responses"
    and "\<forall>r\<in>set responses. sorted (map fst (nearest_results r))"
  shows "\<exists>out. unshard_nearest_geo_read query responses
                 = Inr (Nearest_geo_read_response (Inr out))
           \<and> length out = min (sum_list (map (\<lambda>r. length (nearest_results r)) responses))
                               (ngr_max_results query)
           \<and> sorted (map fst out)
           \<and> merge_of_prefixes (map nearest_results responses) out
           \<and> (\<forall>shard_of.
                 (\<forall>j<length responses. \<forall>e\<in>set (nearest_results (responses ! j)).
                    shard_of (snd e) = j)
                 \<longrightarrow> sorted_wrt (\<lambda>a b. fst a < fst b
                        \<or> fst a = fst b \<and> shard_of (snd a) \<le> shard_of (snd b)) out)
           \<and> stable_merge (map nearest_results responses) out
           \<and> (\<forall>zs. length zs = length out
                      \<and> stable_merge (map nearest_results responses) zs
                   \<longrightarrow> zs = out)"
proof -
  let ?lists = "map nearest_results responses"
  let ?total = "min (sum_list (map length ?lists)) (ngr_max_results query)"
  have collect: "nearest_collect responses [] 0 =
      Inr (Inr (filter (\<lambda>l. l \<noteq> []) ?lists, sum_list (map length ?lists)))"
    using nearest_collect_ok [OF assms(1), of "[]" 0] by simp
  have sorted: "\<forall>l\<in>set ?lists. sorted (map fst l)" using assms(2) by simp
  have "?total - length ([] :: (real \<times> 'c) list) = ?total" by simp
  from nearest_loop_stable [OF sorted this] obtain out where
    loop: "nearest_loop ?total (filter (\<lambda>l. l \<noteq> []) ?lists) [] = Inr ([] @ out)"
    and len: "length out = ?total" and stable: "stable_merge ?lists out"
    by auto
  have u: "unshard_nearest_geo_read query responses
             = Inr (Nearest_geo_read_response (Inr out))"
    using collect loop by (simp add: unshard_nearest_geo_read_def)
  have l: "length out = min (sum_list (map (\<lambda>r. length (nearest_results r)) responses))
                            (ngr_max_results query)"
    using len by (simp add: comp_def)
  have s: "sorted (map fst out)" using stable by (rule stable_merge_sorted)
  have m: "merge_of_prefixes ?lists out" using stable by (rule stable_merge_prefixes)
  have t: "sorted_wrt (\<lambda>a b. fst a < fst b
              \<or> fst a = fst b \<and> shard_of (snd a) \<le> shard_of (snd b)) out"
    if "\<forall>j<length responses. \<forall>e\<in>set (nearest_results (responses ! j)).
          shard_of (snd e) = j" for shard_of :: "'c \<Rightarrow> nat"
    using stable
  proof (rule stable_merge_ties)
    show "\<forall>j<length ?lists. \<forall>e\<in>set (?lists ! j). shard_of (snd e) = j"
      using that by simp
  qed
  have q: "zs = out" if "length zs = length out \<and> stable_merge ?lists zs" for zs
    using stable that by (auto intro: stable_merge_unique)
  from u l s m t stable q show ?thesis by blast
qed

lemma find_nearest_two:
  "find_nearest [a, b] = nearest_step [a, b] 1 (nearest_step [a, b] 0 (2, - 1))"
  by (simp add: find_nearest_def numeral_2_eq_2)

lemma example_nearest_loop:
  "nearest_loop 3 [[(1, 10), (3, 11)], [(1, 20), (2, 21 :: nat)]] []
      = Inr [(1, 10), (1, 20), (2, 21)]"
proof -
  have fn1: "fst (find_nearest [[(1, 10), (3, 11)], [(1, 20), (2, 21 :: nat)]]) = 0"
    by (simp add: find_nearest_two nearest_step_def)
  have fn2: "fst (find_nearest [[(3, 11)], [(1, 20), (2, 21 :: nat)]]) = 1"
    by (simp add: find_nearest_two nearest_step_def)
  have fn3: "fst (find_nearest [[(3, 11)], [(2, 21 :: nat)]]) = 1"
    by (simp add: find_nearest_two nearest_step_def)
  have "nearest_loop 3 [[(1, 10), (3, 11)], [(1, 20), (2, 21 :: nat)]] []
      = nearest_loop 3 [[(3, 11)], [(1, 20), (2, 21)]] [(1, 10)]"
    by (subst nearest_loop.simps) (simp add: fn1 Let_def)
  also have "\<dots> = nearest_loop 3 [[(3, 11)], [(2, 21)]] [(1, 10), (1, 20)]"
    by (subst nearest_loop.simps) (simp add: fn2 Let_def)
  also have "\<dots> = nearest_loop 3 [[(3, 11)]] [(1, 10), (1, 20), (2, 21)]"
    by (subst nearest_loop.simps) (simp add: fn3 Let_def erase_at_def)
  also have "\<dots> = Inr [(1, 10), (1, 20), (2, 21)]"
    by (subst nearest_loop.simps) simp
  finally show ?thesis .
qed

lemma example_nearest_loop_cut:
  "nearest_loop 1 [[(1, 10)], [(1, 20 :: nat)]] [] = Inr [(1, 10)]"
proof -
  have fn: "fst (find_nearest [[(1, 10)], [(1, 20 :: nat)]]) = 0"
    by (simp add: find_nearest_two nearest_step_def)
  have "nearest_loop 1 [[(1, 10)], [(1, 20 :: nat)]] []
      = nearest_loop 1 [[(1, 20)]] [(1, 10)]"
    by (subst nearest_loop.simps) (simp add: fn Let_def erase_at_def)
  also have "\<dots> = Inr [(1, 10)]"
    by (subst nearest_loop.simps) simp
  finally show ?thesis .
qed

theorem nearest_unshard_merge_witness:
  "(\<exists>out. unshard_nearest_geo_read (example_nearest_read 3)
            [example_nearest_response (Inr [(1, 10), (3, 11)]),
             example_nearest_response (Inr [(1, 20), (2, 21)])]
          = Inr (Nearest_geo_read_response (Inr out))
        \<and> length out = 3
        \<and> sorted (map fst out)
        \<and> merge_of_prefixes [[(1, 10), (3, 11)], [(1, 20), (2, 21)]] out
        \<and> sorted_wrt (\<lambda>a b. fst a < fst b
              \<or> fst a = fst b \<and> snd a div 10 - 1 \<le> snd b div 10 - 1) out
        \<and> stable_merge [[(1, 10), (3, 11)], [(1, 20), (2, 21)]] out)
   \<and> unshard_nearest_geo_read (example_nearest_read 3)
        [example_nearest_response (Inr [(1, 10), (3, 11)]),
         example_nearest_response (Inr [(1, 20), (2, 21)])]
      = Inr (Nearest_geo_read_response (Inr [(1, 10), (1, 20), (2, 21)]))
   \<and> unshard_nearest_geo_read (example_nearest_read 1)
        [example_nearest_response (Inr [(1, 10)]),
         example_nearest_response (Inr [(1, 20)])]
      = Inr (Nearest_geo_read_response (Inr [(1, 10)]))
   \<and> \<not> stable_merge [[(1, 10)], [(1, 20 :: nat)]] [(1, 20)]"
proof -
  let ?rs = "[example_nearest_response (Inr [(1, 10), (3, 11)]),
              example_nearest_response (Inr [(1, 20), (2, 21)])]"
  have nr: "map nearest_results ?rs = [[(1, 10), (3, 11)], [(1, 20), (2, 21)]]"
    by (simp add: nearest_results_def example_nearest_response_def)
  have h1: "list_all nearest_ok ?rs"
    by (simp add: nearest_ok_def example_nearest_response_def)
  have h2: "\<forall>r\<in>set ?rs. sorted (map fst (nearest_results r))"
    by (simp add: nearest_results_def example_nearest_response_def)
  from nearest_unshard_merge [OF h1 h2, of "example_nearest_read 3"]
  obtain out where out: "unshard_nearest_geo_read (example_nearest_read 3) ?rs
        = Inr (Nearest_geo_read_response (Inr out))"
    and len: "length out = min (sum_list (map (\<lambda>r. length (nearest_results r)) ?rs))
                               (ngr_max_results (example_nearest_read 3))"
    and srt: "sorted (map fst out)"
    and mrg: "merge_of_prefixes (map nearest_results ?rs) out"
    and tie: "\<forall>shard_of.
                 (\<forall>j<length ?rs. \<forall>e\<in>set (nearest_results (?rs ! j)).
                    shard_of (snd e) = j)
                 \<longrightarrow> sorted_wrt (\<lambda>a b. fst a < fst b
                        \<or> fst a = fst b \<and> shard_of (snd a) \<le> shard_of (snd b)) out"
    and stb: "stable_merge (map nearest_results ?rs) out"
    by blast
  have len': "length out = 3"
    using len by (simp add: nearest_results_def example_nearest_response_def
        example_nearest_read_def)
  have lab: "\<forall>j<length ?rs. \<forall>e\<in>set (nearest_results (?rs ! j)).
       (\<lambda>v. v div 10 - 1) (snd e) = j"
    by (simp add: nearest_results_def example_nearest_response_def less_Suc_eq)
  have tie': "sorted_wrt (\<lambda>a b. fst a < fst b
        \<or> fst a = fst b \<and> snd a div 10 - 1 \<le> snd b div 10 - 1) out"
    by (rule tie [rule_format, of "\<lambda>v. v div 10 - 1", OF lab [rule_format]])
  have first: "\<exists>out. unshard_nearest_geo_read (example_nearest_read 3) ?rs
          = Inr (Nearest_geo_read_response (Inr out))
        \<and> length out = 3
        \<and> sorted (map fst out)
        \<and> merge_of_prefixes [[(1, 10), (3, 11)], [(1, 20), (2, 21)]] out
        \<and> sorted_wrt (\<lambda>a b. fst a < fst b
              \<or> fst a = fst b \<and> snd a div 10 - 1 \<le> snd b div 10 - 1) out
        \<and> stable_merge [[(1, 10), (3, 11)], [(1, 20), (2, 21)]] out"
    using out len' srt mrg [unfolded nr] tie' stb [unfolded nr]
    by (intro exI [of _ out] conjI)
  have collect: "nearest_collect ?rs [] 0
      = Inr (Inr ([[(1, 10), (3, 11)], [(1, 20), (2, 21)]], 4))"
    by (simp add: example_nearest_response_def)
  note loop = example_nearest_loop
  have second: "unshard_nearest_geo_read (example_nearest_read 3) ?rs
      = Inr (Nearest_geo_read_response (Inr [(1, 10), (1, 20), (2, 21)]))"
    using collect loop
    by (simp add: unshard_nearest_geo_read_def example_nearest_read_def)
  let ?cut = "[example_nearest_response (Inr [(1, 10)]),
               example_nearest_response (Inr [(1, 20)])]"
  have nrc: "map nearest_results ?cut = [[(1, 10)], [(1, 20)]]"
    by (simp add: nearest_results_def example_nearest_response_def)
  have c1: "list_all nearest_ok ?cut"
    by (simp add: nearest_ok_def example_nearest_response_def)
  have c2: "\<forall>r\<in>set ?cut. sorted (map fst (nearest_results r))"
    by (simp add: nearest_results_def example_nearest_response_def)
  have collect_cut: "nearest_collect ?cut [] 0 = Inr (Inr ([[(1, 10)], [(1, 20)]], 2))"
    by (simp add: example_nearest_response_def)
  have third: "unshard_nearest_geo_read (example_nearest_read 1) ?cut
      = Inr (Nearest_geo_read_response (Inr [(1, 10)]))"
    using collect_cut example_nearest_loop_cut
    by (simp add: unshard_nearest_geo_read_def example_nearest_read_def)
  from nearest_unshard_merge [OF c1 c2, of "example_nearest_read 1"]
  obtain cut where cut: "unshard_nearest_geo_read (example_nearest_read 1) ?cut
        = Inr (Nearest_geo_read_response (Inr cut))"
    and uniq: "\<forall>zs. length zs = length cut \<and> stable_merge (map nearest_results ?cut) zs
                 \<longrightarrow> zs = cut"
    by blast
  from cut third have \<open>cut = [(1, 10)]\<close> by simp
  have fourth: "\<not> stable_merge [[(1, 10)], [(1, 20 :: nat)]] [(1, 20)]"
  proof
    assume "stable_merge [[(1, 10)], [(1, 20 :: nat)]] [(1, 20)]"
    with uniq [unfolded nrc, rule_format, of "[(1, 20)]"] \<open>cut = [(1, 10)]\<close>
    show False by simp
  qed
  from first second third fourth show ?thesis by (intro conjI)
qed

end
